theory Spec2Isabelle
  imports Main "HOL-Library.Word"
begin

section \<open>The AML virtual machine of gopher-os (device/acpi/aml/vm.go)\<close>

text \<open>
  A shallow embedding of \<^verbatim>\<open>vm.go\<close>: the execution context, the block interpreter
  \<^verbatim>\<open>execBlock\<close>, the namespace lookup, the initialisation of the VM and the pass
  \<^verbatim>\<open>checkEntities\<close> over the entity tree. A Go panic is a value of its own
  (\<open>Panic\<close>), an \<^verbatim>\<open>*Error\<close> that may be nil is an \<open>Error option\<close>, and an object
  mutated in place is returned updated.
\<close>

subsection \<open>Data model\<close>

type_synonym opcode = nat
type_synonym byte = "8 word"

text \<open>
  The entities of the namespace tree and the values an \<^verbatim>\<open>interface{}\<close> can hold.
  \<open>scopeEntity\<close>, \<open>namedEntity\<close>, \<open>Method\<close> and \<open>bufferEntity\<close> are the variants
  \<^verbatim>\<open>vm.go\<close> tells apart; \<open>unnamedEntity\<close> stands for every other entity.
  A nil byte slice is \<open>None\<close>; \<open>VNil\<close> is the nil interface value.
\<close>

datatype entity =
    scopeEntity opcode string "entity list"
  | namedEntity opcode string "val list"
  | Method opcode string "entity list"
  | bufferEntity opcode val "byte list option"
  | unnamedEntity opcode "val list"
and val =
    VNil
  | VEnt entity
  | VUint64 "64 word"
  | VString string
  | VBytes "byte list"

fun getOpcode :: "entity \<Rightarrow> opcode" where
  "getOpcode (scopeEntity op' _ _) = op'"
| "getOpcode (namedEntity op' _ _) = op'"
| "getOpcode (Method op' _ _) = op'"
| "getOpcode (bufferEntity op' _ _) = op'"
| "getOpcode (unnamedEntity op' _) = op'"

text \<open>\<^verbatim>\<open>Children()\<close> of the \<^verbatim>\<open>ScopeEntity\<close> interface; a method is a callable scope.\<close>

fun Children :: "entity \<Rightarrow> entity list" where
  "Children (scopeEntity _ _ cs) = cs"
| "Children (Method _ _ cs) = cs"
| "Children _ = []"

datatype Error = Error (message: string)

datatype ctrlFlowType =
    ctrlFlowTypeNextOpcode
  | ctrlFlowTypeBreak
  | ctrlFlowTypeContinue
  | ctrlFlowTypeFnReturn

definition maxLocalArgs :: nat where "maxLocalArgs = 8"
definition maxMethodArgs :: nat where "maxMethodArgs = 7"

text \<open>
  \<^verbatim>\<open>execContext\<close>. The field \<open>ctxVm\<close> is \<^verbatim>\<open>vm\<close>, the back reference to the owning
  VM; its type is left open.
\<close>

record 'v execContext =
  localArg :: "val list"
  methodArg :: "val list"
  ctrlFlow :: ctrlFlowType
  retVal :: val
  ctxVm :: 'v

subsection \<open>Panics, slices and the conversion helper\<close>

text \<open>
  A Go function either panics or returns. Indexing a slice out of range, a type
  assertion without the comma-ok form on a value of another type, and \<^verbatim>\<open>make\<close> or
  \<^verbatim>\<open>append\<close> with a length beyond the allocation limit of the runtime panic.
\<close>

datatype 'a outcome = Panic | Returns 'a

text \<open>
  The largest \<^verbatim>\<open>int\<close> of the 64-bit targets the kernel is built for: no slice is longer.
\<close>

definition maxInt :: nat where
  "maxInt = 2 ^ 63 - 1"

text \<open>
  The allocation limit of the Go runtime on amd64, in bytes (\<^verbatim>\<open>maxAlloc\<close>, the size of
  the 48-bit heap address space). The runtime panics with "len out of range" when a
  slice of more bytes is asked for. Running out of memory below the limit is a fatal
  error of the runtime and not a panic; it is not modelled.
\<close>

definition maxAlloc :: nat where
  "maxAlloc = 2 ^ 48"

text \<open>
  \<^verbatim>\<open>make([]byte, n)\<close> for an \<^verbatim>\<open>n\<close> of type \<^verbatim>\<open>uint64\<close>: a panic when \<^verbatim>\<open>n\<close> is beyond
  the allocation limit (which every \<^verbatim>\<open>n\<close> that does not fit an \<^verbatim>\<open>int\<close> is), \<^verbatim>\<open>n\<close> zero
  bytes otherwise.
\<close>

definition makeBytes :: "64 word \<Rightarrow> byte list outcome" where
  "makeBytes n = (if maxAlloc < unat n then Panic else Returns (replicate (unat n) 0))"

text \<open>
  \<^verbatim>\<open>append(xs, ys...)\<close>: a panic when the grown slice is beyond the allocation limit.
\<close>

definition appendBytes :: "byte list \<Rightarrow> byte list \<Rightarrow> byte list outcome" where
  "appendBytes xs ys =
     (if maxAlloc < length xs + length ys then Panic else Returns (xs @ ys))"

datatype valueType = valueTypeInteger | valueTypeString | valueTypeBuffer

text \<open>
  \<^verbatim>\<open>vmConvert(ctx, arg, toType)\<close> is not part of \<^verbatim>\<open>vm.go\<close>: every function below that
  calls it takes it as a parameter of this type. It returns the converted value and an
  \<^verbatim>\<open>*Error\<close>, and is a function of the context and the operand.
\<close>

type_synonym 'v vmConvertFn =
  "'v execContext \<Rightarrow> val \<Rightarrow> valueType \<Rightarrow> val \<times> Error option"

subsection \<open>The VM\<close>

text \<open>
  The header of a system description table, as far as \<^verbatim>\<open>vm.go\<close> reads it: the
  revision is one byte.
\<close>

record SDTHeader =
  Revision :: "8 word"

text \<open>
  Modelled from the spec: the type of the parser's error is not among the sources. The
  parser "reports a (module, message) decode error"; \<^verbatim>\<open>err.Module\<close> is the module and
  \<^verbatim>\<open>err.Error()\<close> the message.
\<close>

record kernelError =
  Module :: string
  Message :: string

text \<open>
  \<^verbatim>\<open>VM\<close>. \<open>tableResolver\<close> is \<^verbatim>\<open>LookupTable\<close> of the resolver, \<open>tableParser\<close> the state
  of the parser, \<open>jumpTable\<close> the dispatch table; the types of the last two are left
  open. The error writer is never read.
\<close>

record ('jt, 'ps) VM =
  tableResolver :: "string \<Rightarrow> SDTHeader option"
  tableParser :: 'ps
  rootNS :: entity
  sizeOfIntInBits :: int
  jumpTable :: 'jt

text \<open>
  \<^verbatim>\<open>ParseAML(tableHandle, tableName, header)\<close> of the parser is not part of \<^verbatim>\<open>vm.go\<close>:
  a parameter that takes the state of the parser and the namespace tree it is bound to
  and returns both updated, with its error.
\<close>

type_synonym 'ps parseAMLFn =
  "8 word \<Rightarrow> string \<Rightarrow> SDTHeader \<Rightarrow> 'ps \<Rightarrow> entity \<Rightarrow> kernelError option \<times> 'ps \<times> entity"

definition rootSeparator :: char where
  "rootSeparator = CHR 0x5C"

text \<open>\<^verbatim>\<open>defaultACPIScopes\<close>; the opcode \<^verbatim>\<open>opScope\<close> is a parameter.\<close>

definition defaultACPIScopes :: "opcode \<Rightarrow> entity" where
  "defaultACPIScopes opScope =
     scopeEntity opScope [rootSeparator]
       [scopeEntity opScope ''_GPE'' [],
        scopeEntity opScope ''_PR_'' [],
        scopeEntity opScope ''_SB_'' [],
        scopeEntity opScope ''_SI_'' [],
        scopeEntity opScope ''_TZ_'' []]"

text \<open>
  \<^verbatim>\<open>NewVM\<close>. The parser \<^verbatim>\<open>NewParser\<close> returns and the jump table with no handler yet
  are parameters; \<^verbatim>\<open>sizeOfIntInBits\<close> starts as 0, the zero value of the field.
\<close>

definition NewVM :: "opcode \<Rightarrow> 'ps \<Rightarrow> 'jt \<Rightarrow> (string \<Rightarrow> SDTHeader option) \<Rightarrow> ('jt, 'ps) VM" where
  "NewVM opScope newParser noHandlers resolver =
     \<lparr>tableResolver = resolver, tableParser = newParser,
      rootNS = defaultACPIScopes opScope, sizeOfIntInBits = 0, jumpTable = noHandlers\<rparr>"

subsection \<open>execBlock\<close>

text \<open>
  An opcode handler receives the context and the instruction and returns an
  \<^verbatim>\<open>*Error\<close>. It may change the context and, through it, anything else the VM owns:
  \<open>'w\<close> is that remaining state, returned updated. The handlers are not part of
  \<^verbatim>\<open>vm.go\<close>: the jump table of the VM that executes a block has a handler for every
  opcode.
\<close>

type_synonym ('v, 'w) opHandler =
  "'v execContext \<Rightarrow> 'w \<Rightarrow> entity \<Rightarrow> Error option \<times> 'v execContext \<times> 'w"

text \<open>
  The loop of \<^verbatim>\<open>execBlock\<close>:
  \<^verbatim>\<open>for instrIndex := 0; instrIndex < numInstr && ctx.ctrlFlow == ctrlFlowTypeNextOpcode; instrIndex++\<close>.
\<close>

function execLoop ::
  "(opcode \<Rightarrow> ('v, 'w) opHandler, 'ps) VM \<Rightarrow> entity list \<Rightarrow> nat \<Rightarrow> nat \<Rightarrow> 'v execContext \<Rightarrow> 'w
     \<Rightarrow> Error option \<times> 'v execContext \<times> 'w" where
  "execLoop vm instrList numInstr instrIndex ctx w =
     (if instrIndex < numInstr \<and> ctrlFlow ctx = ctrlFlowTypeNextOpcode then
        (let instr = instrList ! instrIndex in
         case (jumpTable vm) (getOpcode instr) ctx w instr of
           (Some err, ctx', w') \<Rightarrow> (Some err, ctx', w')
         | (None, ctx', w') \<Rightarrow> execLoop vm instrList numInstr (instrIndex + 1) ctx' w')
      else (None, ctx, w))"
  by pat_completeness auto
termination
  by (relation "measure (\<lambda>(vm, il, n, i, c, w). n - i)") auto

declare execLoop.simps [simp del]

definition execBlock ::
  "(opcode \<Rightarrow> ('v, 'w) opHandler, 'ps) VM \<Rightarrow> 'v execContext \<Rightarrow> 'w \<Rightarrow> entity
     \<Rightarrow> Error option \<times> 'v execContext \<times> 'w" where
  "execBlock vm ctx w block =
     (let instrList = Children block;
          numInstr = length instrList
      in execLoop vm instrList numInstr 0 ctx w)"

text \<open>
  What the specification says of the loop, as a relation of its own:
  \<open>runs handlers instrList k s s'\<close> holds when the first \<open>k\<close> instructions of the
  list have been executed in list order starting from \<open>s\<close>, each one entered with the
  signal NextOpcode, each one by the handler the table has for its opcode, each one
  reporting no error, and \<open>s'\<close> is the state the last of them left.
\<close>

inductive runs ::
  "(opcode \<Rightarrow> ('v, 'w) opHandler) \<Rightarrow> entity list \<Rightarrow> nat
     \<Rightarrow> 'v execContext \<times> 'w \<Rightarrow> 'v execContext \<times> 'w \<Rightarrow> bool"
  for handlers :: "opcode \<Rightarrow> ('v, 'w) opHandler" and instrList :: "entity list" where
  runs_none: "runs handlers instrList 0 s s"
| runs_next:
  "runs handlers instrList k s (ctx, w) \<Longrightarrow>
   k < length instrList \<Longrightarrow>
   ctrlFlow ctx = ctrlFlowTypeNextOpcode \<Longrightarrow>
   handlers (getOpcode (instrList ! k)) ctx w (instrList ! k) = (None, ctx', w') \<Longrightarrow>
   runs handlers instrList (Suc k) s (ctx', w')"

subsection \<open>Lookup\<close>

text \<open>
  Modelled from the spec: the name of an entity. A scope "has a name", a named entity is
  "a named wrapper" and a method "a callable scope"; no other variant is said to have one.
\<close>

fun entName :: "entity \<Rightarrow> string option" where
  "entName (scopeEntity _ n _) = Some n"
| "entName (namedEntity _ n _) = Some n"
| "entName (Method _ n _) = Some n"
| "entName _ = None"

text \<open>
  Modelled from the spec: the first of the children, in their order, that bears the
  segment as its name.
\<close>

fun findChild :: "entity list \<Rightarrow> string \<Rightarrow> entity option" where
  "findChild [] seg = None"
| "findChild (c # cs) seg = (if entName c = Some seg then Some c else findChild cs seg)"

text \<open>Modelled from the spec: name segments are "fixed-width (4-character)".\<close>

definition amlNameLen :: nat where
  "amlNameLen = 4"

text \<open>
  Modelled from the spec: \<^verbatim>\<open>scopeFindRelative\<close> is not among the sources. Paths other
  than the root "are sequences of fixed-width (4-character) name segments relative to
  root, matched top-down", resolved "consuming one hierarchical segment at a time": the
  next segment is looked up among the children of the entity reached so far, and a
  segment that is cut short or that no child bears gives nil.
\<close>

function scopeFindRelative :: "entity \<Rightarrow> string \<Rightarrow> entity option" where
  "scopeFindRelative ns path =
     (if path = [] then Some ns
      else if length path < amlNameLen then None
      else (case findChild (Children ns) (take amlNameLen path) of
              None \<Rightarrow> None
            | Some child \<Rightarrow> scopeFindRelative child (drop amlNameLen path)))"
  by pat_completeness auto
termination
  by (relation "measure (\<lambda>(ns, path). length path)") (auto simp: amlNameLen_def)

declare scopeFindRelative.simps [simp del]

definition Lookup :: "('jt, 'ps) VM \<Rightarrow> string \<Rightarrow> entity option" where
  "Lookup vm absPath =
     (if absPath = [] \<or> absPath ! 0 \<noteq> rootSeparator then None
      else if length absPath = 1 then Some (rootNS vm)
      else scopeFindRelative (rootNS vm) (drop 1 absPath))"

subsection \<open>Visit\<close>

text \<open>
  Modelled from the spec: the type of the filter is not among the sources. A filter is
  the wildcard, which "matches everything", or selects the entities of some variant.
\<close>

datatype EntityType = EntityTypeAny | EntityTypeOf "entity \<Rightarrow> bool"

text \<open>Modelled from the spec: whether the variant of an entity "matches the filter".\<close>

fun entTypeMatches :: "EntityType \<Rightarrow> entity \<Rightarrow> bool" where
  "entTypeMatches EntityTypeAny ent = True"
| "entTypeMatches (EntityTypeOf variant) ent = variant ent"

text \<open>
  The children of a scope after they have been visited: the traversal changes the
  entities in place, so the scope holds the entities as the visit has left them.
\<close>

fun setChildren :: "entity \<Rightarrow> entity list \<Rightarrow> entity" where
  "setChildren (scopeEntity op' n _) cs = scopeEntity op' n cs"
| "setChildren (Method op' n _) cs = Method op' n cs"
| "setChildren ent cs = ent"

text \<open>
  Modelled from the spec: the type of a visitor is not among the sources. The visitor
  contract is "(depth, entity) -> bool where the return value means descend into this
  entity's children". The entity, which the visitor may have changed in place, and the
  variables it has captured (\<open>'s\<close>) are returned updated.
\<close>

type_synonym 's Visitor = "nat \<Rightarrow> entity \<Rightarrow> 's \<Rightarrow> (bool \<times> entity \<times> 's) outcome"

text \<open>
  Modelled from the spec: \<^verbatim>\<open>scopeVisit\<close> is not among the sources. It is a "depth-first,
  parent-before-children traversal", "invoking the visitor on every Entity whose variant
  matches the filter"; "the visitor returns whether to descend into that Entity's
  children; traversal order across siblings follows tree insertion order". An entity the
  filter does not match is descended into. The children descended into are those of the
  entity as it was handed to the visitor.
\<close>

function scopeVisit :: "nat \<Rightarrow> entity \<Rightarrow> EntityType \<Rightarrow> 's Visitor \<Rightarrow> 's \<Rightarrow> (entity \<times> 's) outcome"
and scopeVisitChildren ::
  "nat \<Rightarrow> entity list \<Rightarrow> EntityType \<Rightarrow> 's Visitor \<Rightarrow> 's \<Rightarrow> (entity list \<times> 's) outcome" where
  "scopeVisit depth ent entType visitorFn st =
     (case (if entTypeMatches entType ent then visitorFn depth ent st
            else Returns (True, ent, st)) of
        Panic \<Rightarrow> Panic
      | Returns (descend, ent', st') \<Rightarrow>
          if descend then
            (case scopeVisitChildren (depth + 1) (Children ent) entType visitorFn st' of
               Panic \<Rightarrow> Panic
             | Returns (cs', st'') \<Rightarrow> Returns (setChildren ent' cs', st''))
          else Returns (ent', st'))"
| "scopeVisitChildren depth [] entType visitorFn st = Returns ([], st)"
| "scopeVisitChildren depth (child # rest) entType visitorFn st =
     (case scopeVisit depth child entType visitorFn st of
        Panic \<Rightarrow> Panic
      | Returns (child', st') \<Rightarrow>
          (case scopeVisitChildren depth rest entType visitorFn st' of
             Panic \<Rightarrow> Panic
           | Returns (rest', st'') \<Rightarrow> Returns (child' # rest', st'')))"
  by pat_completeness auto
termination
proof (relation "measure (\<lambda>x. case x of
          Inl (depth, ent, entType, visitorFn, st) \<Rightarrow> size ent
        | Inr (depth, cs, entType, visitorFn, st) \<Rightarrow> size_list size cs)", goal_cases)
  case (2 depth ent entType visitorFn st x2 x y xa ya)
  show ?case by (cases ent) simp_all
qed simp_all

declare scopeVisit.simps [simp del]

definition Visit :: "('jt, 'ps) VM \<Rightarrow> EntityType \<Rightarrow> 's Visitor \<Rightarrow> 's \<Rightarrow> (entity \<times> 's) outcome" where
  "Visit vm entType visitorFn st = scopeVisit 0 (rootNS vm) entType visitorFn st"

subsection \<open>checkEntities\<close>

text \<open>
  The buffer case of the visitor, after the size has been evaluated: allocate when there
  is no payload, then pad with zeroes when the payload is shorter than the size.
\<close>

definition sizeBuffer :: "64 word \<Rightarrow> byte list option \<Rightarrow> byte list outcome" where
  "sizeBuffer sizeAsInt data =
     (case (case data of None \<Rightarrow> makeBytes sizeAsInt | Some d \<Rightarrow> Returns d) of
        Panic \<Rightarrow> Panic
      | Returns d \<Rightarrow>
          (let dataLen = (of_nat (length d) :: 64 word) in
           if dataLen < sizeAsInt then
             (case makeBytes (sizeAsInt - dataLen) of
                Panic \<Rightarrow> Panic
              | Returns zeroes \<Rightarrow> appendBytes d zeroes)
           else Returns d))"

text \<open>The type switch of the visitor.\<close>

fun checkEntity ::
  "'v vmConvertFn \<Rightarrow> 'v execContext \<Rightarrow> entity \<Rightarrow> (bool \<times> entity \<times> Error option) outcome" where
  "checkEntity vmConvert ctx (Method op' n body) = Returns (False, Method op' n body, None)"
| "checkEntity vmConvert ctx (bufferEntity op' size' data) =
     (case vmConvert ctx size' valueTypeInteger of
        (sz, Some err) \<Rightarrow> Returns (False, bufferEntity op' size' data, Some err)
      | (sz, None) \<Rightarrow>
          (case sz of
             VUint64 sizeAsInt \<Rightarrow>
               (case sizeBuffer sizeAsInt data of
                  Panic \<Rightarrow> Panic
                | Returns d \<Rightarrow> Returns (True, bufferEntity op' size' (Some d), None))
           | _ \<Rightarrow> Panic))"
| "checkEntity vmConvert ctx ent = Returns (True, ent, None)"

text \<open>
  The visitor of \<^verbatim>\<open>checkEntities\<close>. The variable it captures is \<^verbatim>\<open>err\<close>; the context
  is never written. A named entity whose first argument is an entity is classified as
  that entity, which is changed in place.
\<close>

definition checkEntitiesVisitor :: "'v vmConvertFn \<Rightarrow> 'v execContext \<Rightarrow> (Error option) Visitor" where
  "checkEntitiesVisitor vmConvert ctx depth ent err =
     (if err \<noteq> None then Returns (False, ent, err)
      else (case ent of
              namedEntity op' n args \<Rightarrow>
                (case args of
                   [] \<Rightarrow> Panic
                 | VEnt nestedEnt # rest \<Rightarrow>
                     (case checkEntity vmConvert ctx nestedEnt of
                        Panic \<Rightarrow> Panic
                      | Returns (descend, nestedEnt', err') \<Rightarrow>
                          Returns (descend, namedEntity op' n (VEnt nestedEnt' # rest), err'))
                 | _ # rest \<Rightarrow> checkEntity vmConvert ctx ent)
            | _ \<Rightarrow> checkEntity vmConvert ctx ent))"

text \<open>
  The literal \<^verbatim>\<open>&execContext{vm: vm}\<close>: every other field has its zero value.
\<close>

definition newExecContext :: "'v \<Rightarrow> 'v execContext" where
  "newExecContext vm =
     \<lparr>localArg = replicate maxLocalArgs VNil, methodArg = replicate maxMethodArgs VNil,
      ctrlFlow = ctrlFlowTypeNextOpcode, retVal = VNil, ctxVm = vm\<rparr>"

definition checkEntities ::
  "(('jt, 'ps) VM) vmConvertFn \<Rightarrow> ('jt, 'ps) VM \<Rightarrow> (Error option \<times> ('jt, 'ps) VM) outcome" where
  "checkEntities vmConvert vm =
     (let ctx = newExecContext vm
      in case Visit vm EntityTypeAny (checkEntitiesVisitor vmConvert ctx) None of
           Panic \<Rightarrow> Panic
         | Returns (root', err) \<Rightarrow> Returns (err, vm\<lparr>rootNS := root'\<rparr>))"

subsection \<open>Init\<close>

text \<open>
  The loop of \<^verbatim>\<open>Init\<close> over the table names with their indices. It returns the error
  of the first table that fails to parse.
\<close>

fun initTables ::
  "'ps parseAMLFn \<Rightarrow> (nat \<times> string) list \<Rightarrow> ('jt, 'ps) VM \<Rightarrow> Error option \<times> ('jt, 'ps) VM" where
  "initTables ParseAML [] vm = (None, vm)"
| "initTables ParseAML ((tableHandle, tableName) # rest) vm =
     (case tableResolver vm tableName of
        None \<Rightarrow> initTables ParseAML rest vm
      | Some header \<Rightarrow>
          (case ParseAML (of_nat (tableHandle + 1)) tableName header
                  (tableParser vm) (rootNS vm) of
             (Some err, parser', root') \<Rightarrow>
               (Some (Error (Module err @ '': '' @ Message err)),
                vm\<lparr>tableParser := parser', rootNS := root'\<rparr>)
           | (None, parser', root') \<Rightarrow>
               (let vm1 = vm\<lparr>tableParser := parser', rootNS := root'\<rparr>;
                    vm2 = (if tableName = ''DSDT''
                           then (let vm32 = vm1\<lparr>sizeOfIntInBits := 32\<rparr>
                                 in if Revision header \<ge> 2
                                    then vm32\<lparr>sizeOfIntInBits := 64\<rparr>
                                    else vm32)
                           else vm1)
                in initTables ParseAML rest vm2)))"

text \<open>
  \<^verbatim>\<open>Init\<close>. \<^verbatim>\<open>populateJumpTable\<close> is not part of \<^verbatim>\<open>vm.go\<close>: a parameter that
  builds the dispatch table, that is, gives the field \<open>jumpTable\<close> its new value.
\<close>

definition Init ::
  "'ps parseAMLFn \<Rightarrow> ('jt \<Rightarrow> 'jt) \<Rightarrow> (('jt, 'ps) VM) vmConvertFn \<Rightarrow> ('jt, 'ps) VM
     \<Rightarrow> (Error option \<times> ('jt, 'ps) VM) outcome" where
  "Init ParseAML populateJumpTable vmConvert vm =
     (case initTables ParseAML (enumerate 0 [''DSDT'', ''SSDT'']) vm of
        (Some err, vm') \<Rightarrow> Returns (Some err, vm')
      | (None, vm') \<Rightarrow>
          checkEntities vmConvert (vm'\<lparr>jumpTable := populateJumpTable (jumpTable vm')\<rparr>))"

subsection \<open>Positions in the tree\<close>

text \<open>
  An entity of the tree is addressed by the indices of the children that lead to it from
  the root. \<open>entityAt\<close> follows a path through scopes and method bodies alike;
  \<open>visitedAt\<close> follows it through scopes only, which are the entities the visitor of
  \<^verbatim>\<open>checkEntities\<close> lets the traversal descend into.
\<close>

fun entityAt :: "entity \<Rightarrow> nat list \<Rightarrow> entity option" where
  "entityAt ent [] = Some ent"
| "entityAt ent (i # p) =
     (if i < length (Children ent) then entityAt (Children ent ! i) p else None)"

fun visitedAt :: "entity \<Rightarrow> nat list \<Rightarrow> entity option" where
  "visitedAt ent [] = Some ent"
| "visitedAt (scopeEntity op' n cs) (i # p) =
     (if i < length cs then visitedAt (cs ! i) p else None)"
| "visitedAt ent (i # p) = None"

text \<open>
  \<open>visitedAfter p q\<close>: in a depth-first traversal that visits parents before children
  and siblings in order, the position \<open>q\<close> comes after the position \<open>p\<close>.
\<close>

fun visitedAfter :: "nat list \<Rightarrow> nat list \<Rightarrow> bool" where
  "visitedAfter [] q = (q \<noteq> [])"
| "visitedAfter (i # p) [] = False"
| "visitedAfter (i # p) (j # q) = (if i = j then visitedAfter p q else i < j)"

text \<open>
  The entity the visitor classifies: the first argument of a named entity when that
  argument is an entity, the entity itself otherwise.
\<close>

fun peek :: "entity \<Rightarrow> entity" where
  "peek (namedEntity op' n (VEnt nestedEnt # rest)) = nestedEnt"
| "peek ent = ent"

fun isMethod :: "entity \<Rightarrow> bool" where
  "isMethod (Method op' n body) = True"
| "isMethod ent = False"

text \<open>The bytes of a payload; a nil payload has none.\<close>

fun payload :: "byte list option \<Rightarrow> byte list" where
  "payload None = []"
| "payload (Some d) = d"

text \<open>
  The conditions under which the visitor does not panic on a buffer: the conversion of
  its size reports an error, or returns a \<^verbatim>\<open>uint64\<close> within the allocation limit of
  the runtime; the payload is a slice, so its length fits an \<^verbatim>\<open>int\<close>.
\<close>

definition sizeFits :: "'v vmConvertFn \<Rightarrow> 'v execContext \<Rightarrow> val \<Rightarrow> byte list option \<Rightarrow> bool" where
  "sizeFits vmConvert ctx size' data =
     (case vmConvert ctx size' valueTypeInteger of
        (sz, Some err) \<Rightarrow> True
      | (VUint64 sizeAsInt, None) \<Rightarrow>
          unat sizeAsInt \<le> maxAlloc \<and> length (payload data) \<le> maxInt
      | (_, None) \<Rightarrow> False)"

text \<open>
  \<open>panicFree\<close> holds of a tree when every named entity outside method bodies has a
  first argument and every buffer the visitor classifies satisfies \<open>sizeFits\<close>.
\<close>

fun panicFree :: "'v vmConvertFn \<Rightarrow> 'v execContext \<Rightarrow> entity \<Rightarrow> bool" where
  "panicFree vmConvert ctx (scopeEntity op' n cs) = list_all (panicFree vmConvert ctx) cs"
| "panicFree vmConvert ctx (namedEntity op' n args) =
     (case args of
        [] \<Rightarrow> False
      | VEnt (bufferEntity bop size' data) # rest \<Rightarrow> sizeFits vmConvert ctx size' data
      | _ # rest \<Rightarrow> True)"
| "panicFree vmConvert ctx (bufferEntity op' size' data) = sizeFits vmConvert ctx size' data"
| "panicFree vmConvert ctx ent = True"

subsection \<open>Inputs for the examples\<close>

definition noTables :: "string \<Rightarrow> SDTHeader option" where
  "noTables tableName = None"

definition dsdtOnly :: "string \<Rightarrow> SDTHeader option" where
  "dsdtOnly tableName = (if tableName = ''DSDT'' then Some \<lparr>Revision = 2\<rparr> else None)"

definition parseNothing :: "unit parseAMLFn" where
  "parseNothing tableHandle tableName header parser root = (None, parser, root)"

definition parseFails :: "unit parseAMLFn" where
  "parseFails tableHandle tableName header parser root =
     (Some \<lparr>Module = ''acpi_aml_parser'', Message = ''unexpected end of stream''\<rparr>,
      parser, root)"

definition errConversionFromEmptyString :: Error where
  "errConversionFromEmptyString =
     Error ''vmConvert: conversion from String requires a non-empty value''"

text \<open>
  Modelled from the spec: \<^verbatim>\<open>vmConvert\<close> is not among the sources. This instance does
  what the spec says of the conversion to Integer on the operands of the examples:
  "Convert(value, targetType) is idempotent when targetType already matches value's
  type", within "the resolved numeric width (32/64-bit)", and "converting an empty
  String always fails".
\<close>

definition demoConvert :: "(('jt, 'ps) VM) vmConvertFn" where
  "demoConvert ctx arg toType =
     (case arg of
        VUint64 n \<Rightarrow>
          (VUint64 (if sizeOfIntInBits (ctxVm ctx) = 64 then n else take_bit 32 n), None)
      | _ \<Rightarrow> (VNil, Some errConversionFromEmptyString))"

definition vmWith :: "entity \<Rightarrow> (unit, unit) VM" where
  "vmWith root =
     \<lparr>tableResolver = noTables, tableParser = (), rootNS = root,
      sizeOfIntInBits = 64, jumpTable = ()\<rparr>"

text \<open>
  A namespace with a named buffer whose initialiser is shorter than its size, a buffer
  with no initialiser and a method whose body declares a buffer, and the same namespace
  after the pass.
\<close>

definition demoTree :: entity where
  "demoTree =
     scopeEntity 16 [rootSeparator]
       [scopeEntity 16 ''_SB_''
          [namedEntity 8 ''BUF0'' [VEnt (bufferEntity 17 (VUint64 4) (Some [1, 2]))],
           bufferEntity 17 (VUint64 3) None,
           Method 20 ''MTH0'' [bufferEntity 17 (VUint64 2) None]]]"

definition demoTreeSized :: entity where
  "demoTreeSized =
     scopeEntity 16 [rootSeparator]
       [scopeEntity 16 ''_SB_''
          [namedEntity 8 ''BUF0'' [VEnt (bufferEntity 17 (VUint64 4) (Some [1, 2, 0, 0]))],
           bufferEntity 17 (VUint64 3) (Some [0, 0, 0]),
           Method 20 ''MTH0'' [bufferEntity 17 (VUint64 2) None]]]"

text \<open>
  A namespace whose second buffer has a size that does not convert, and the same
  namespace after the pass.
\<close>

definition failingTree :: entity where
  "failingTree =
     scopeEntity 16 [rootSeparator]
       [bufferEntity 17 (VUint64 2) None,
        namedEntity 8 ''BUF1'' [VEnt (bufferEntity 17 (VString []) None)],
        bufferEntity 17 (VUint64 3) None]"

definition failingTreeAfter :: entity where
  "failingTreeAfter =
     scopeEntity 16 [rootSeparator]
       [bufferEntity 17 (VUint64 2) (Some [0, 0]),
        namedEntity 8 ''BUF1'' [VEnt (bufferEntity 17 (VString []) None)],
        bufferEntity 17 (VUint64 3) None]"

text \<open>A namespace with a buffer whose size is \<open>2 ^ 63\<close>.\<close>

definition hugeBufferTree :: entity where
  "hugeBufferTree =
     scopeEntity 16 [rootSeparator] [bufferEntity 17 (VUint64 0x8000000000000000) None]"

text \<open>A small jump table, context and block to run the interpreter on.\<close>

definition demoTable :: "opcode \<Rightarrow> (unit, nat) opHandler" where
  "demoTable op' ctx w instr =
     (if op' = 0 then (None, ctx, w + 1)
      else if op' = 1 then (None, ctx\<lparr>ctrlFlow := ctrlFlowTypeBreak\<rparr>, w + 1)
      else (Some (Error ''unsupported opcode''), ctx, w + 1))"

definition demoVM :: "(opcode \<Rightarrow> (unit, nat) opHandler, unit) VM" where
  "demoVM = \<lparr>tableResolver = noTables, tableParser = (),
     rootNS = defaultACPIScopes 16, sizeOfIntInBits = 64, jumpTable = demoTable\<rparr>"

definition demoCtx :: "unit execContext" where
  "demoCtx = \<lparr>localArg = replicate 8 VNil, methodArg = replicate 7 VNil,
     ctrlFlow = ctrlFlowTypeNextOpcode, retVal = VNil, ctxVm = ()\<rparr>"

definition demoBlock :: entity where
  "demoBlock = scopeEntity 16 ''BLK_''
     [unnamedEntity 0 [], unnamedEntity 1 [], unnamedEntity 2 []]"

section \<open>Properties\<close>

subsection \<open>execBlock\<close>

lemma execLoop_stop:
  "\<not> (instrIndex < numInstr \<and> ctrlFlow ctx = ctrlFlowTypeNextOpcode) \<Longrightarrow>
   execLoop vm instrList numInstr instrIndex ctx w = (None, ctx, w)"
  by (subst execLoop.simps) auto

lemma execLoop_err:
  "instrIndex < numInstr \<Longrightarrow> ctrlFlow ctx = ctrlFlowTypeNextOpcode \<Longrightarrow>
   jumpTable vm (getOpcode (instrList ! instrIndex)) ctx w (instrList ! instrIndex) =
     (Some err, ctx', w') \<Longrightarrow>
   execLoop vm instrList numInstr instrIndex ctx w = (Some err, ctx', w')"
  by (subst execLoop.simps) simp

lemma execLoop_next:
  "instrIndex < numInstr \<Longrightarrow> ctrlFlow ctx = ctrlFlowTypeNextOpcode \<Longrightarrow>
   jumpTable vm (getOpcode (instrList ! instrIndex)) ctx w (instrList ! instrIndex) =
     (None, ctx', w') \<Longrightarrow>
   execLoop vm instrList numInstr instrIndex ctx w =
     execLoop vm instrList numInstr (instrIndex + 1) ctx' w'"
  by (subst execLoop.simps) simp

lemma execLoop_runs:
  "runs (jumpTable vm) instrList instrIndex s (ctx, w) \<Longrightarrow>
   instrIndex \<le> numInstr \<Longrightarrow> numInstr = length instrList \<Longrightarrow>
   \<exists>k ctx1 w1. k \<le> length instrList \<and> runs (jumpTable vm) instrList k s (ctx1, w1) \<and>
     (if k < length instrList \<and> ctrlFlow ctx1 = ctrlFlowTypeNextOpcode
      then execLoop vm instrList numInstr instrIndex ctx w =
             jumpTable vm (getOpcode (instrList ! k)) ctx1 w1 (instrList ! k) \<and>
           fst (execLoop vm instrList numInstr instrIndex ctx w) \<noteq> None
      else execLoop vm instrList numInstr instrIndex ctx w = (None, ctx1, w1))"
proof (induction vm instrList numInstr instrIndex ctx w rule: execLoop.induct)
  case (1 vm instrList numInstr instrIndex ctx w)
  let ?instr = "instrList ! instrIndex"
  let ?r = "jumpTable vm (getOpcode ?instr) ctx w ?instr"
  let ?here = "execLoop vm instrList numInstr instrIndex ctx w"
  show ?case
  proof (cases "instrIndex < numInstr \<and> ctrlFlow ctx = ctrlFlowTypeNextOpcode")
    case False
    then have "?here = (None, ctx, w)" by (rule execLoop_stop)
    with False "1.prems" show ?thesis
      by (intro exI[of _ instrIndex] exI[of _ ctx] exI[of _ w]) auto
  next
    case go: True
    obtain e ctx' w' where r: "?r = (e, ctx', w')" by (cases ?r) auto
    show ?thesis
    proof (cases e)
      case None
      with r go "1.prems" have step: "runs (jumpTable vm) instrList (instrIndex + 1) s (ctx', w')"
        by (auto intro: runs_next)
      from go have le: "instrIndex + 1 \<le> numInstr" by simp
      have eq: "?here = execLoop vm instrList numInstr (instrIndex + 1) ctx' w'"
        using go r None by (intro execLoop_next) simp_all
      show ?thesis
        unfolding eq
        by (rule "1.IH"[OF go refl r[symmetric] None refl step le "1.prems"(3)])
    next
      case (Some err)
      with r go have "?here = ?r" by (simp add: execLoop_err)
      with go r Some "1.prems" show ?thesis
        by (intro exI[of _ instrIndex] exI[of _ ctx] exI[of _ w]) auto
    qed
  qed
qed

text \<open>
  C1: execBlock executes the children of the block one at a time in list order, each by
  the handler the jump table has for its opcode, and only while the signal of the context
  is NextOpcode. For some \<open>k\<close>, the first \<open>k\<close> children ran so and reported no error.
  Either the instruction at \<open>k\<close> is then executed as well and reports an error: this
  first error is returned, with the state that handler left. Or all children have run or
  the signal is no longer NextOpcode: nil is returned, with the state after these \<open>k\<close>
  instructions. No further instruction is executed in either case.
\<close>

theorem execBlock_runs_in_order:
  "\<exists>k ctx1 w1.
     k \<le> length (Children block) \<and>
     runs (jumpTable vm) (Children block) k (ctx, w) (ctx1, w1) \<and>
     (if k < length (Children block) \<and> ctrlFlow ctx1 = ctrlFlowTypeNextOpcode
      then execBlock vm ctx w block =
             jumpTable vm (getOpcode (Children block ! k)) ctx1 w1 (Children block ! k) \<and>
           fst (execBlock vm ctx w block) \<noteq> None
      else execBlock vm ctx w block = (None, ctx1, w1))"
  using execLoop_runs[of vm "Children block" 0 "(ctx, w)" ctx w "length (Children block)",
      OF runs_none]
  unfolding execBlock_def Let_def by simp

theorem execBlock_runs_in_order_witness:
  "execBlock demoVM demoCtx 0 demoBlock =
     (None, demoCtx\<lparr>ctrlFlow := ctrlFlowTypeBreak\<rparr>, 2) \<and>
   (\<exists>k ctx1 w1.
     k \<le> length (Children demoBlock) \<and>
     runs (jumpTable demoVM) (Children demoBlock) k (demoCtx, 0) (ctx1, w1) \<and>
     (if k < length (Children demoBlock) \<and> ctrlFlow ctx1 = ctrlFlowTypeNextOpcode
      then execBlock demoVM demoCtx 0 demoBlock =
             jumpTable demoVM (getOpcode (Children demoBlock ! k)) ctx1 w1 (Children demoBlock ! k) \<and>
           fst (execBlock demoVM demoCtx 0 demoBlock) \<noteq> None
      else execBlock demoVM demoCtx 0 demoBlock = (None, ctx1, w1)))"
proof -
  have "execBlock demoVM demoCtx 0 demoBlock =
      (None, demoCtx\<lparr>ctrlFlow := ctrlFlowTypeBreak\<rparr>, 2)"
    by (simp add: execBlock_def demoBlock_def demoVM_def demoTable_def demoCtx_def execLoop.simps)
  then show ?thesis
    using execBlock_runs_in_order[of demoBlock demoVM demoCtx 0] by simp
qed

text \<open>
  C10: when the control-flow signal of the context is not NextOpcode on entry, execBlock
  runs no handler and returns nil, and the context (and everything else) is as it was,
  whatever the block and the jump table are.
\<close>

theorem execBlock_signal_set_noop:
  "ctrlFlow ctx \<noteq> ctrlFlowTypeNextOpcode \<Longrightarrow>
     execBlock vm ctx w block = (None, ctx, w)"
  by (simp add: execBlock_def execLoop_stop)

theorem execBlock_signal_set_noop_witness:
  "ctrlFlow (demoCtx\<lparr>ctrlFlow := ctrlFlowTypeFnReturn\<rparr>) \<noteq> ctrlFlowTypeNextOpcode \<and>
   execBlock demoVM (demoCtx\<lparr>ctrlFlow := ctrlFlowTypeFnReturn\<rparr>) 5 demoBlock =
     (None, demoCtx\<lparr>ctrlFlow := ctrlFlowTypeFnReturn\<rparr>, 5)"
  using execBlock_signal_set_noop[of "demoCtx\<lparr>ctrlFlow := ctrlFlowTypeFnReturn\<rparr>"
      demoVM 5 demoBlock]
  by simp


subsection \<open>Lookup\<close>

lemma scopeFindRelative_append:
  "scopeFindRelative ns pre = Some e \<Longrightarrow>
   scopeFindRelative ns (pre @ after) = scopeFindRelative e after"
proof (induction ns pre arbitrary: e rule: scopeFindRelative.induct)
  case (1 ns path)
  show ?case
  proof (cases "path = []")
    case True
    with "1.prems" show ?thesis by (simp add: scopeFindRelative.simps)
  next
    case False
    from "1.prems" False have len: "\<not> length path < amlNameLen"
      by (auto simp: scopeFindRelative.simps[of ns path] split: if_splits)
    with "1.prems" False obtain child where
      child: "findChild (Children ns) (take amlNameLen path) = Some child"
      and rest: "scopeFindRelative child (drop amlNameLen path) = Some e"
      by (auto simp: scopeFindRelative.simps[of ns path] split: option.splits)
    from "1.IH"[OF False len child rest]
    have "scopeFindRelative child (drop amlNameLen path @ after) = scopeFindRelative e after" .
    with False len child show ?thesis
      by (simp add: scopeFindRelative.simps[of ns "path @ after"])
  qed
qed

lemma scopeFindRelative_unknown:
  "length seg = amlNameLen \<Longrightarrow> findChild (Children ns) seg = None \<Longrightarrow>
   scopeFindRelative ns (seg @ rest) = None"
  by (auto simp: scopeFindRelative.simps[of ns "seg @ rest"] amlNameLen_def)


text \<open>
  C4: Lookup returns nil for the empty path and for a path whose first character is not
  the root separator, the root scope for the path that is the root separator alone, and
  for every longer path what the relative search from the root finds for the remainder.
  It returns nil, and has no other way to fail, when a segment is unknown: when a prefix
  of the remainder leads to an entity \<open>ns\<close> and no child of \<open>ns\<close> bears the next segment.
\<close>

theorem Lookup_paths:
  "Lookup vm [] = None \<and>
   (c \<noteq> rootSeparator \<longrightarrow> Lookup vm (c # rest) = None) \<and>
   Lookup vm [rootSeparator] = Some (rootNS vm) \<and>
   Lookup vm (rootSeparator # c # rest) = scopeFindRelative (rootNS vm) (c # rest) \<and>
   (scopeFindRelative (rootNS vm) pre = Some ns \<longrightarrow> length seg = amlNameLen \<longrightarrow>
    findChild (Children ns) seg = None \<longrightarrow>
    Lookup vm (rootSeparator # pre @ seg @ rest') = None)"
proof (intro conjI impI)
  assume pre: "scopeFindRelative (rootNS vm) pre = Some ns"
    and seg: "length seg = amlNameLen" and unknown: "findChild (Children ns) seg = None"
  from seg have "seg \<noteq> []" by (auto simp: amlNameLen_def)
  then have "Lookup vm (rootSeparator # pre @ seg @ rest') =
      scopeFindRelative (rootNS vm) (pre @ seg @ rest')"
    by (simp add: Lookup_def)
  also have "\<dots> = scopeFindRelative ns (seg @ rest')"
    by (rule scopeFindRelative_append[OF pre])
  also have "\<dots> = None" by (rule scopeFindRelative_unknown[OF seg unknown])
  finally show "Lookup vm (rootSeparator # pre @ seg @ rest') = None" .
qed (simp_all add: Lookup_def)

theorem Lookup_paths_witness:
  "scopeFindRelative (rootNS (NewVM 16 () () noTables)) ''_SB_'' =
     Some (scopeEntity 16 ''_SB_'' []) \<and>
   length ''PCI0'' = amlNameLen \<and>
   findChild (Children (scopeEntity 16 ''_SB_'' [])) ''PCI0'' = None \<and>
   Lookup (NewVM 16 () () noTables) (rootSeparator # ''_SB_'' @ ''PCI0'' @ ''_ADR'') = None \<and>
   Lookup (NewVM 16 () () noTables) (rootSeparator # ''_SB_'') =
     Some (scopeEntity 16 ''_SB_'' []) \<and>
   CHR ''_'' \<noteq> rootSeparator \<and>
   Lookup (NewVM 16 () () noTables) ''_SB_'' = None"
proof -
  let ?vm = "NewVM 16 () () noTables :: (unit, unit) VM"
  have pre: "scopeFindRelative (rootNS ?vm) ''_SB_'' = Some (scopeEntity 16 ''_SB_'' [])"
    by (simp add: NewVM_def defaultACPIScopes_def scopeFindRelative.simps amlNameLen_def)
  have seg: "length ''PCI0'' = amlNameLen" by (simp add: amlNameLen_def)
  have unknown: "findChild (Children (scopeEntity 16 ''_SB_'' [])) ''PCI0'' = None" by simp
  have sep: "CHR ''_'' \<noteq> rootSeparator" by (simp add: rootSeparator_def)
  from Lookup_paths[of ?vm "CHR ''_''" "''SB_''" "''_SB_''" "scopeEntity 16 ''_SB_'' []"
      "''PCI0''" "''_ADR''"] pre seg unknown sep
  show ?thesis by simp
qed

subsection \<open>Init\<close>

lemma checkEntities_fields:
  "checkEntities vmConvert vm = Returns (res, vm') \<Longrightarrow>
     sizeOfIntInBits vm' = sizeOfIntInBits vm \<and> jumpTable vm' = jumpTable vm \<and>
     tableParser vm' = tableParser vm \<and> tableResolver vm' = tableResolver vm"
  by (auto simp: checkEntities_def Let_def split: outcome.splits)

lemma initTables_roles:
  "initTables ParseAML (enumerate 0 [''DSDT'', ''SSDT'']) vm =
     (case tableResolver vm ''DSDT'' of
        None \<Rightarrow>
          (case tableResolver vm ''SSDT'' of
             None \<Rightarrow> (None, vm)
           | Some ssdt \<Rightarrow>
               (case ParseAML 2 ''SSDT'' ssdt (tableParser vm) (rootNS vm) of
                  (Some err, parser', root') \<Rightarrow>
                    (Some (Error (Module err @ '': '' @ Message err)),
                     vm\<lparr>tableParser := parser', rootNS := root'\<rparr>)
                | (None, parser', root') \<Rightarrow>
                    (None, vm\<lparr>tableParser := parser', rootNS := root'\<rparr>)))
      | Some dsdt \<Rightarrow>
          (case ParseAML 1 ''DSDT'' dsdt (tableParser vm) (rootNS vm) of
             (Some err, parser', root') \<Rightarrow>
               (Some (Error (Module err @ '': '' @ Message err)),
                vm\<lparr>tableParser := parser', rootNS := root'\<rparr>)
           | (None, parser1, root1) \<Rightarrow>
               (case tableResolver vm ''SSDT'' of
                  None \<Rightarrow>
                    (None, vm\<lparr>tableParser := parser1, rootNS := root1,
                             sizeOfIntInBits := (if Revision dsdt \<ge> 2 then 64 else 32)\<rparr>)
                | Some ssdt \<Rightarrow>
                    (case ParseAML 2 ''SSDT'' ssdt parser1 root1 of
                       (Some err, parser', root') \<Rightarrow>
                         (Some (Error (Module err @ '': '' @ Message err)),
                          vm\<lparr>tableParser := parser', rootNS := root',
                              sizeOfIntInBits := (if Revision dsdt \<ge> 2 then 64 else 32)\<rparr>)
                     | (None, parser', root') \<Rightarrow>
                         (None, vm\<lparr>tableParser := parser', rootNS := root',
                                  sizeOfIntInBits := (if Revision dsdt \<ge> 2 then 64 else 32)\<rparr>)))))"
  by (auto simp: enumerate_eq_zip Let_def split: option.splits prod.splits intro!: VM.equality)

lemma initTables_width:
  "initTables ParseAML (enumerate 0 [''DSDT'', ''SSDT'']) vm = (res, vm') \<Longrightarrow>
   sizeOfIntInBits vm' =
     (case tableResolver vm ''DSDT'' of
        None \<Rightarrow> sizeOfIntInBits vm
      | Some dsdt \<Rightarrow>
          (case ParseAML 1 ''DSDT'' dsdt (tableParser vm) (rootNS vm) of
             (Some err, parser', root') \<Rightarrow> sizeOfIntInBits vm
           | (None, parser', root') \<Rightarrow> (if Revision dsdt \<ge> 2 then 64 else 32)))"
  unfolding initTables_roles
  by (auto split: option.splits prod.splits)

lemma initTables_DSDT_parsed:
  "initTables ParseAML (enumerate 0 [''DSDT'', ''SSDT'']) vm = (None, vm') \<Longrightarrow>
   tableResolver vm ''DSDT'' = Some dsdt \<Longrightarrow>
   \<exists>parser' root'. ParseAML 1 ''DSDT'' dsdt (tableParser vm) (rootNS vm) = (None, parser', root')"
  unfolding initTables_roles
  by (auto split: option.splits prod.splits)

lemma Init_width:
  assumes "Init ParseAML populateJumpTable vmConvert vm = Returns (res, vm')"
  shows "\<exists>r vm1. initTables ParseAML (enumerate 0 [''DSDT'', ''SSDT'']) vm = (r, vm1) \<and>
           sizeOfIntInBits vm' = sizeOfIntInBits vm1 \<and> (res = None \<longrightarrow> r = None)"
proof (cases "initTables ParseAML (enumerate 0 [''DSDT'', ''SSDT'']) vm")
  case (Pair r vm1)
  show ?thesis
  proof (cases r)
    case None
    with Pair assms have "checkEntities vmConvert
        (vm1\<lparr>jumpTable := populateJumpTable (jumpTable vm1)\<rparr>) = Returns (res, vm')"
      by (simp add: Init_def)
    from checkEntities_fields[OF this] Pair None show ?thesis by simp
  next
    case (Some e)
    with Pair assms show ?thesis by (simp add: Init_def)
  qed
qed

lemma replicate_num:
  "replicate (numeral k) x = x # replicate (pred_numeral k) x"
  by (simp add: numeral_eq_Suc)

lemmas pass_simps = checkEntities_def Visit_def scopeVisit.simps checkEntitiesVisitor_def
  newExecContext_def demoConvert_def sizeBuffer_def makeBytes_def appendBytes_def maxAlloc_def
  vmWith_def Let_def replicate_num

lemmas init_simps = Init_def NewVM_def defaultACPIScopes_def enumerate_eq_zip
  noTables_def dsdtOnly_def parseNothing_def parseFails_def

text \<open>
  C6: Init asks the resolver for the table named DSDT and then for the table named SSDT.
  A table the resolver does not have is skipped and Init goes on. A table it has is
  handed to the parser, the first as table 1 and the second as table 2, the second on
  what the first has left. When the parser reports an error, Init returns at once: its
  error is the module of the parser's error, a colon and a space, and the parser's
  message; the jump table is not built and the entities are not checked. Only when no
  table fails is the jump table built and the result of checkEntities returned.
\<close>

theorem Init_table_roles:
  "Init ParseAML populateJumpTable vmConvert vm =
     (case tableResolver vm ''DSDT'' of
        None \<Rightarrow>
          (case tableResolver vm ''SSDT'' of
             None \<Rightarrow> checkEntities vmConvert (vm\<lparr>jumpTable := populateJumpTable (jumpTable vm)\<rparr>)
           | Some ssdt \<Rightarrow>
               (case ParseAML 2 ''SSDT'' ssdt (tableParser vm) (rootNS vm) of
                  (Some err, parser', root') \<Rightarrow>
                    Returns (Some (Error (Module err @ '': '' @ Message err)),
                             vm\<lparr>tableParser := parser', rootNS := root'\<rparr>)
                | (None, parser', root') \<Rightarrow>
                    checkEntities vmConvert
                      (vm\<lparr>tableParser := parser', rootNS := root',
                          jumpTable := populateJumpTable (jumpTable vm)\<rparr>)))
      | Some dsdt \<Rightarrow>
          (case ParseAML 1 ''DSDT'' dsdt (tableParser vm) (rootNS vm) of
             (Some err, parser', root') \<Rightarrow>
               Returns (Some (Error (Module err @ '': '' @ Message err)),
                        vm\<lparr>tableParser := parser', rootNS := root'\<rparr>)
           | (None, parser1, root1) \<Rightarrow>
               (case tableResolver vm ''SSDT'' of
                  None \<Rightarrow>
                    checkEntities vmConvert
                      (vm\<lparr>tableParser := parser1, rootNS := root1,
                          sizeOfIntInBits := (if Revision dsdt \<ge> 2 then 64 else 32),
                          jumpTable := populateJumpTable (jumpTable vm)\<rparr>)
                | Some ssdt \<Rightarrow>
                    (case ParseAML 2 ''SSDT'' ssdt parser1 root1 of
                       (Some err, parser', root') \<Rightarrow>
                         Returns (Some (Error (Module err @ '': '' @ Message err)),
                                  vm\<lparr>tableParser := parser', rootNS := root',
                                      sizeOfIntInBits := (if Revision dsdt \<ge> 2 then 64 else 32)\<rparr>)
                     | (None, parser', root') \<Rightarrow>
                         checkEntities vmConvert
                           (vm\<lparr>tableParser := parser', rootNS := root',
                               sizeOfIntInBits := (if Revision dsdt \<ge> 2 then 64 else 32),
                               jumpTable := populateJumpTable (jumpTable vm)\<rparr>)))))"
  unfolding Init_def initTables_roles
  by (auto split: option.splits prod.splits
        intro!: arg_cong[where f="checkEntities vmConvert"] VM.equality)

theorem Init_table_roles_witness:
  "Init parseFails id demoConvert (NewVM 16 () () dsdtOnly) =
     Returns (Some (Error ''acpi_aml_parser: unexpected end of stream''),
              NewVM 16 () () dsdtOnly) \<and>
   Init parseNothing id demoConvert (NewVM 16 () () noTables) =
     checkEntities demoConvert (NewVM 16 () () noTables)"
  using Init_table_roles[of parseFails id demoConvert "NewVM 16 () () dsdtOnly"]
    Init_table_roles[of parseNothing id demoConvert "NewVM 16 () () noTables"]
  by (simp add: NewVM_def dsdtOnly_def noTables_def parseFails_def)

text \<open>
  C5: when the resolver has a DSDT and the parser decodes it, the integer width of the
  VM that Init returns is 64 bits if the revision of the table is at least 2 and 32 bits
  if it is 0 or 1. The width is set once the DSDT is parsed, and nothing Init does
  afterwards changes it: whatever the SSDT is, whether it parses, whatever jump table is
  built and whatever checkEntities returns, the VM that Init hands back has this width.
\<close>

theorem Init_integer_width:
  assumes "tableResolver vm ''DSDT'' = Some dsdt"
    and "ParseAML 1 ''DSDT'' dsdt (tableParser vm) (rootNS vm) = (None, parser1, root1)"
    and "Init ParseAML populateJumpTable vmConvert vm = Returns (res, vm')"
  shows "sizeOfIntInBits vm' = (if 2 \<le> Revision dsdt then 64 else 32) \<and>
         (\<not> 2 \<le> Revision dsdt \<longleftrightarrow> Revision dsdt = 0 \<or> Revision dsdt = 1)"
proof -
  from Init_width[OF assms(3)] obtain r vm1 where
    t: "initTables ParseAML (enumerate 0 [''DSDT'', ''SSDT'']) vm = (r, vm1)"
    and w: "sizeOfIntInBits vm' = sizeOfIntInBits vm1" by blast
  from initTables_width[OF t] assms(1,2) w
  have "sizeOfIntInBits vm' = (if 2 \<le> Revision dsdt then 64 else 32)" by simp
  moreover have "(\<not> 2 \<le> Revision dsdt) = (Revision dsdt = 0 \<or> Revision dsdt = 1)"
  proof -
    have "(\<not> 2 \<le> Revision dsdt) = (unat (Revision dsdt) < 2)"
      by (simp add: word_le_nat_alt not_le)
    also have "\<dots> = (unat (Revision dsdt) = 0 \<or> unat (Revision dsdt) = 1)" by arith
    also have "\<dots> = (Revision dsdt = 0 \<or> Revision dsdt = 1)"
      by (simp add: word_unat_eq_iff)
    finally show ?thesis .
  qed
  ultimately show ?thesis by simp
qed

theorem Init_integer_width_witness:
  "tableResolver (NewVM 16 () () dsdtOnly :: (unit, unit) VM) ''DSDT'' = Some \<lparr>Revision = 2\<rparr> \<and>
   parseNothing 1 ''DSDT'' \<lparr>Revision = 2\<rparr> () (defaultACPIScopes 16) =
     (None, (), defaultACPIScopes 16) \<and>
   Init parseNothing id demoConvert (NewVM 16 () () dsdtOnly) =
     Returns (None, (NewVM 16 () () dsdtOnly)\<lparr>sizeOfIntInBits := 64\<rparr>) \<and>
   sizeOfIntInBits ((NewVM 16 () () dsdtOnly :: (unit, unit) VM)\<lparr>sizeOfIntInBits := 64\<rparr>) =
     (if 2 \<le> Revision \<lparr>Revision = 2\<rparr> then 64 else 32)"
proof -
  let ?vm = "NewVM 16 () () dsdtOnly :: (unit, unit) VM"
  have 1: "tableResolver ?vm ''DSDT'' = Some \<lparr>Revision = 2\<rparr>"
    by (simp add: NewVM_def dsdtOnly_def)
  have 2: "parseNothing 1 ''DSDT'' \<lparr>Revision = 2\<rparr> (tableParser ?vm) (rootNS ?vm) =
      (None, (), defaultACPIScopes 16)"
    by (simp add: parseNothing_def NewVM_def)
  have 3: "Init parseNothing id demoConvert ?vm =
      Returns (None, ?vm\<lparr>sizeOfIntInBits := 64\<rparr>)"
    by (simp add: init_simps pass_simps)
  from Init_integer_width[OF 1 2 3] 1 2 3 show ?thesis
    by (simp add: NewVM_def)
qed

text \<open>
  C8, as the code has it: after a successful Init, the integer width is 32 or 64 bits
  when the resolver has a DSDT; when it has none, Init leaves the width as it was
  before the call, which is 0 on a VM that NewVM has just made.
\<close>

theorem Init_width_binary_when_DSDT:
  assumes "Init ParseAML populateJumpTable vmConvert vm = Returns (None, vm')"
  shows "(tableResolver vm ''DSDT'' \<noteq> None \<longrightarrow>
            sizeOfIntInBits vm' = 32 \<or> sizeOfIntInBits vm' = 64) \<and>
         (tableResolver vm ''DSDT'' = None \<longrightarrow> sizeOfIntInBits vm' = sizeOfIntInBits vm)"
proof -
  from Init_width[OF assms] obtain vm1 where
    t: "initTables ParseAML (enumerate 0 [''DSDT'', ''SSDT'']) vm = (None, vm1)"
    and w: "sizeOfIntInBits vm' = sizeOfIntInBits vm1" by blast
  show ?thesis
  proof (cases "tableResolver vm ''DSDT''")
    case None
    with initTables_width[OF t] w show ?thesis by simp
  next
    case (Some dsdt)
    from initTables_DSDT_parsed[OF t Some] obtain parser' root' where
      "ParseAML 1 ''DSDT'' dsdt (tableParser vm) (rootNS vm) = (None, parser', root')" by blast
    with initTables_width[OF t] w Some show ?thesis by simp
  qed
qed

theorem Init_width_binary_when_DSDT_witness:
  "Init parseNothing id demoConvert (NewVM 16 () () dsdtOnly) =
     Returns (None, (NewVM 16 () () dsdtOnly)\<lparr>sizeOfIntInBits := 64\<rparr>) \<and>
   tableResolver (NewVM 16 () () dsdtOnly :: (unit, unit) VM) ''DSDT'' \<noteq> None \<and>
   (sizeOfIntInBits ((NewVM 16 () () dsdtOnly :: (unit, unit) VM)\<lparr>sizeOfIntInBits := 64\<rparr>) = 32 \<or>
    sizeOfIntInBits ((NewVM 16 () () dsdtOnly :: (unit, unit) VM)\<lparr>sizeOfIntInBits := 64\<rparr>) = 64)"
proof -
  let ?vm = "NewVM 16 () () dsdtOnly :: (unit, unit) VM"
  have 1: "Init parseNothing id demoConvert ?vm = Returns (None, ?vm\<lparr>sizeOfIntInBits := 64\<rparr>)"
    by (simp add: init_simps pass_simps)
  have 2: "tableResolver ?vm ''DSDT'' \<noteq> None"
    by (simp add: NewVM_def dsdtOnly_def)
  from Init_width_binary_when_DSDT[OF 1] 1 2 show ?thesis by blast
qed

text \<open>
  C8 as stated fails: on a VM that NewVM has just made and a resolver that has no table,
  Init succeeds and the integer width is 0, neither 32 nor 64.
\<close>

theorem Init_width_counterexample:
  "Init parseNothing id demoConvert (NewVM 16 () () noTables) =
     Returns (None, NewVM 16 () () noTables) \<and>
   sizeOfIntInBits (NewVM 16 () () noTables :: (unit, unit) VM) \<noteq> 32 \<and>
   sizeOfIntInBits (NewVM 16 () () noTables :: (unit, unit) VM) \<noteq> 64"
  by (simp add: init_simps pass_simps)

subsection \<open>The traversal under the visitor of checkEntities\<close>

lemma scopeVisit_Any:
  "scopeVisit depth ent EntityTypeAny visitorFn st =
     (case visitorFn depth ent st of
        Panic \<Rightarrow> Panic
      | Returns (descend, ent', st') \<Rightarrow>
          if descend then
            (case scopeVisitChildren (depth + 1) (Children ent) EntityTypeAny visitorFn st' of
               Panic \<Rightarrow> Panic
             | Returns (cs', st'') \<Rightarrow> Returns (setChildren ent' cs', st''))
          else Returns (ent', st'))"
  by (subst scopeVisit.simps) simp

lemma visitor_err [simp]:
  "checkEntitiesVisitor vmConvert ctx depth ent (Some e) = Returns (False, ent, Some e)"
  by (simp add: checkEntitiesVisitor_def)

lemma visitor_scope [simp]:
  "checkEntitiesVisitor vmConvert ctx depth (scopeEntity op' n cs) None =
     Returns (True, scopeEntity op' n cs, None)"
  by (simp add: checkEntitiesVisitor_def)

lemma visitor_Method [simp]:
  "checkEntitiesVisitor vmConvert ctx depth (Method op' n body) st =
     Returns (False, Method op' n body, st)"
  by (cases st) (simp_all add: checkEntitiesVisitor_def)

lemma visitor_named_Method [simp]:
  "checkEntitiesVisitor vmConvert ctx depth (namedEntity op' n (VEnt (Method mop m body) # rest)) st =
     Returns (False, namedEntity op' n (VEnt (Method mop m body) # rest), st)"
  by (cases st) (simp_all add: checkEntitiesVisitor_def)

lemma scopeVisit_err [simp]:
  "scopeVisit depth ent EntityTypeAny (checkEntitiesVisitor vmConvert ctx) (Some e) =
     Returns (ent, Some e)"
  by (simp add: scopeVisit_Any)

lemma scopeVisitChildren_err [simp]:
  "scopeVisitChildren depth cs EntityTypeAny (checkEntitiesVisitor vmConvert ctx) (Some e) =
     Returns (cs, Some e)"
  by (induction cs) simp_all

lemma scopeVisit_scope:
  "scopeVisit depth (scopeEntity op' n cs) EntityTypeAny (checkEntitiesVisitor vmConvert ctx) None =
     (case scopeVisitChildren (depth + 1) cs EntityTypeAny (checkEntitiesVisitor vmConvert ctx) None of
        Panic \<Rightarrow> Panic
      | Returns (cs', st') \<Rightarrow> Returns (scopeEntity op' n cs', st'))"
  by (simp add: scopeVisit_Any split: outcome.splits)

lemma scopeVisit_Method [simp]:
  "scopeVisit depth (Method op' n body) EntityTypeAny (checkEntitiesVisitor vmConvert ctx) st =
     Returns (Method op' n body, st)"
  by (simp add: scopeVisit_Any)

lemma scopeVisit_named_Method [simp]:
  "scopeVisit depth (namedEntity op' n (VEnt (Method mop m body) # rest)) EntityTypeAny
       (checkEntitiesVisitor vmConvert ctx) st =
     Returns (namedEntity op' n (VEnt (Method mop m body) # rest), st)"
  by (simp add: scopeVisit_Any)

text \<open>Splitting the visit of a list of siblings at one of them.\<close>

lemma scopeVisitChildren_split:
  "scopeVisitChildren depth cs entType visitorFn st = Returns (cs', st') \<Longrightarrow> i < length cs \<Longrightarrow>
   length cs' = length cs \<and>
   (\<exists>a b. scopeVisitChildren depth (take i cs) entType visitorFn st = Returns (take i cs', a) \<and>
          scopeVisit depth (cs ! i) entType visitorFn a = Returns (cs' ! i, b) \<and>
          scopeVisitChildren depth (drop (Suc i) cs) entType visitorFn b =
            Returns (drop (Suc i) cs', st'))"
proof (induction cs arbitrary: cs' st i)
  case Nil
  then show ?case by simp
next
  case (Cons c cs)
  from Cons.prems(1) obtain c' s1 rest' where
    c: "scopeVisit depth c entType visitorFn st = Returns (c', s1)"
    and r: "scopeVisitChildren depth cs entType visitorFn s1 = Returns (rest', st')"
    and cs': "cs' = c' # rest'"
    by (auto split: outcome.splits prod.splits)
  show ?case
  proof (cases i)
    case 0
    from r have "length rest' = length cs"
    proof (induction cs arbitrary: rest' s1)
      case Nil then show ?case by simp
    next
      case (Cons x xs)
      then show ?case by (auto split: outcome.splits prod.splits)
    qed
    with 0 c r cs' show ?thesis by simp
  next
    case (Suc j)
    with Cons.prems(2) have j: "j < length cs" by simp
    from Cons.IH[OF r j] c cs' Suc show ?thesis by auto
  qed
qed

lemma scopeVisitChildren_length:
  "scopeVisitChildren depth cs entType visitorFn st = Returns (cs', st') \<Longrightarrow>
   length cs' = length cs"
  by (induction cs arbitrary: cs' st) (auto split: outcome.splits prod.splits)

lemma isMethod_peek_cases:
  assumes "isMethod (peek ent)"
  obtains op' n body where "ent = Method op' n body"
  | op' n mop m body rest where "ent = namedEntity op' n (VEnt (Method mop m body) # rest)"
proof (cases ent)
  case (namedEntity op' n args)
  show ?thesis
  proof (cases args)
    case Nil
    with namedEntity assms show ?thesis by simp
  next
    case (Cons a rest)
    show ?thesis
    proof (cases a)
      case (VEnt nested)
      with namedEntity Cons assms have "isMethod nested" by simp
      then obtain mop m body where "nested = Method mop m body" by (cases nested) auto
      with namedEntity Cons VEnt that(2) show ?thesis by blast
    qed (use namedEntity Cons assms in auto)
  qed
qed (use assms that in auto)

lemma scopeVisit_method_like:
  "isMethod (peek ent) \<Longrightarrow>
   scopeVisit depth ent EntityTypeAny (checkEntitiesVisitor vmConvert ctx) st = Returns (ent, st)"
  by (erule isMethod_peek_cases) simp_all

lemma scopeVisit_keeps_methods:
  "scopeVisit depth root EntityTypeAny (checkEntitiesVisitor vmConvert ctx) st = Returns (root', st') \<Longrightarrow>
   entityAt root p = Some ent \<Longrightarrow> isMethod (peek ent) \<Longrightarrow>
   entityAt root' p = Some ent"
proof (induction p arbitrary: root root' depth st st')
  case Nil
  then show ?case by (simp add: scopeVisit_method_like)
next
  case (Cons i p)
  from Cons.prems(2) have i: "i < length (Children root)"
    and sub: "entityAt (Children root ! i) p = Some ent"
    by (auto split: if_splits)
  show ?case
  proof (cases st)
    case (Some e)
    with Cons.prems show ?thesis by simp
  next
    case None
    show ?thesis
    proof (cases root)
      case (scopeEntity op' n cs)
      with Cons.prems(1) None obtain cs' where
        cs': "scopeVisitChildren (depth + 1) cs EntityTypeAny
                (checkEntitiesVisitor vmConvert ctx) None = Returns (cs', st')"
        and root': "root' = scopeEntity op' n cs'"
        by (auto simp: scopeVisit_scope split: outcome.splits)
      from i scopeEntity have ilt: "i < length cs" by simp
      from scopeVisitChildren_split[OF cs' ilt] obtain a b where
        len: "length cs' = length cs"
        and one: "scopeVisit (depth + 1) (cs ! i) EntityTypeAny
                    (checkEntitiesVisitor vmConvert ctx) a = Returns (cs' ! i, b)"
        by blast
      from sub scopeEntity have "entityAt (cs ! i) p = Some ent" by simp
      from Cons.IH[OF one this Cons.prems(3)] root' len ilt show ?thesis by simp
    next
      case (Method op' n body)
      with Cons.prems show ?thesis by simp
    qed (use i in auto)
  qed
qed

lemma checkEntities_Returns:
  "checkEntities vmConvert vm = Returns (res, vm') \<Longrightarrow>
   \<exists>root'. scopeVisit 0 (rootNS vm) EntityTypeAny
              (checkEntitiesVisitor vmConvert (newExecContext vm)) None = Returns (root', res) \<and>
           vm' = vm\<lparr>rootNS := root'\<rparr>"
  by (auto simp: checkEntities_def Visit_def Let_def split: outcome.splits)


text \<open>
  C9: on a method, and on a named entity whose first argument is a method, the visitor
  returns false and changes nothing, whatever error it has recorded. The traversal then
  does not descend: after checkEntities, a method of the namespace, or a named entity
  wrapping one, is where it was and as it was, and so is every entity inside the body
  of the method.
\<close>

theorem checkEntities_skips_methods:
  "checkEntitiesVisitor vmConvert ctx depth (Method op' n body) err =
     Returns (False, Method op' n body, err) \<and>
   checkEntitiesVisitor vmConvert ctx depth
       (namedEntity nop nn (VEnt (Method op' n body) # rest)) err =
     Returns (False, namedEntity nop nn (VEnt (Method op' n body) # rest), err) \<and>
   (checkEntities vmConvert vm = Returns (res, vm') \<longrightarrow>
    entityAt (rootNS vm) p = Some ent \<longrightarrow> isMethod (peek ent) \<longrightarrow>
    (\<forall>q. entityAt (rootNS vm') (p @ q) = entityAt (rootNS vm) (p @ q)))"
proof (intro conjI impI allI)
  fix q
  assume ret: "checkEntities vmConvert vm = Returns (res, vm')"
    and at: "entityAt (rootNS vm) p = Some ent" and m: "isMethod (peek ent)"
  from checkEntities_Returns[OF ret] obtain root' where
    v: "scopeVisit 0 (rootNS vm) EntityTypeAny
          (checkEntitiesVisitor vmConvert (newExecContext vm)) None = Returns (root', res)"
    and vm': "vm' = vm\<lparr>rootNS := root'\<rparr>" by blast
  from scopeVisit_keeps_methods[OF v at m] have at': "entityAt root' p = Some ent" .
  have app: "\<And>r e. entityAt r p = Some e \<Longrightarrow> entityAt r (p @ q) = entityAt e q"
  proof (induction p)
    case Nil then show ?case by simp
  next
    case (Cons i p) then show ?case by (auto split: if_splits)
  qed
  from app[OF at] app[OF at'] vm' show "entityAt (rootNS vm') (p @ q) = entityAt (rootNS vm) (p @ q)"
    by simp
qed simp_all

theorem checkEntities_skips_methods_witness:
  "checkEntities demoConvert (vmWith demoTree) = Returns (None, vmWith demoTreeSized) \<and>
   entityAt (rootNS (vmWith demoTree)) [0, 2] =
     Some (Method 20 ''MTH0'' [bufferEntity 17 (VUint64 2) None]) \<and>
   isMethod (peek (Method 20 ''MTH0'' [bufferEntity 17 (VUint64 2) None])) \<and>
   entityAt (rootNS (vmWith demoTreeSized)) ([0, 2] @ [0]) =
     Some (bufferEntity 17 (VUint64 2) None)"
proof -
  have 1: "checkEntities demoConvert (vmWith demoTree) = Returns (None, vmWith demoTreeSized)"
    by (simp add: pass_simps demoTree_def demoTreeSized_def)
  have 2: "entityAt (rootNS (vmWith demoTree)) [0, 2] =
      Some (Method 20 ''MTH0'' [bufferEntity 17 (VUint64 2) None])"
    by (simp add: vmWith_def demoTree_def)
  have 3: "isMethod (peek (Method 20 ''MTH0'' [bufferEntity 17 (VUint64 2) None]))" by simp
  have "entityAt (rootNS (vmWith demoTreeSized)) ([0, 2] @ [0]) =
      entityAt (rootNS (vmWith demoTree)) ([0, 2] @ [0])"
    using checkEntities_skips_methods[where vmConvert = demoConvert
        and vm = "vmWith demoTree" and res = None and vm' = "vmWith demoTreeSized"
        and p = "[0, 2]" and ent = "Method 20 ''MTH0'' [bufferEntity 17 (VUint64 2) None]"]
      1 2 3 by blast
  also have "\<dots> = Some (bufferEntity 17 (VUint64 2) None)"
    by (simp add: vmWith_def demoTree_def)
  finally show ?thesis using 1 2 3 by simp
qed

subsection \<open>Buffers\<close>

lemma unat_of_nat_len:
  "n \<le> maxInt \<Longrightarrow> unat (of_nat n :: 64 word) = n"
  by (simp add: maxInt_def unat_of_nat)

lemma sizeBuffer_Returns:
  assumes "sizeBuffer s data = Returns d" and "length (payload data) \<le> maxInt"
  shows "d = payload data @ replicate (unat s - length (payload data)) 0 \<and>
         (data = None \<or> length (payload data) < unat s \<longrightarrow> unat s \<le> maxAlloc)"
proof (cases data)
  case None
  with assms(1) have fits: "\<not> maxAlloc < unat s" and
    "(let dataLen = (of_nat (unat s) :: 64 word) in
       if dataLen < s then
         (case makeBytes (s - dataLen) of Panic \<Rightarrow> Panic
          | Returns zeroes \<Rightarrow> appendBytes (replicate (unat s) 0) zeroes)
       else Returns (replicate (unat s) 0)) = Returns d"
    by (auto simp: sizeBuffer_def makeBytes_def split: if_splits)
  then have "d = replicate (unat s) 0" by (simp add: Let_def)
  with None fits show ?thesis by simp
next
  case (Some d0)
  with assms(2) have len: "unat (of_nat (length d0) :: 64 word) = length d0"
    by (simp add: unat_of_nat_len)
  show ?thesis
  proof (cases "length d0 < unat s")
    case True
    then have lt: "(of_nat (length d0) :: 64 word) < s"
      by (simp add: word_less_nat_alt len)
    then have sub: "unat (s - of_nat (length d0)) = unat s - length d0"
      by (simp add: unat_sub len word_le_nat_alt word_less_nat_alt)
    from assms(1) Some lt have
      "(case makeBytes (s - of_nat (length d0)) of Panic \<Rightarrow> Panic
        | Returns zeroes \<Rightarrow> appendBytes d0 zeroes) = Returns d"
      by (simp add: sizeBuffer_def Let_def)
    then have "d = d0 @ replicate (unat s - length d0) 0 \<and>
        \<not> maxAlloc < length d0 + (unat s - length d0)"
      by (auto simp: makeBytes_def appendBytes_def sub split: if_splits)
    with True Some show ?thesis by simp
  next
    case False
    then have "\<not> (of_nat (length d0) :: 64 word) < s"
      by (simp add: word_less_nat_alt len)
    with assms(1) Some have "d = d0" by (simp add: sizeBuffer_def Let_def)
    with False Some show ?thesis by simp
  qed
qed

lemma padded_payload:
  assumes "d = old @ replicate (s - length old) (0 :: byte)"
  shows "length d = max s (length old) \<and> take (length old) d = old \<and>
         (\<forall>i. length old \<le> i \<and> i < s \<longrightarrow> d ! i = 0) \<and>
         (s \<le> length old \<longrightarrow> d = old)"
  using assms by (auto simp: nth_append)

lemma peek_buffer_cases:
  assumes "peek ent = bufferEntity op' size' data"
  obtains "ent = bufferEntity op' size' data"
  | nop n rest where "ent = namedEntity nop n (VEnt (bufferEntity op' size' data) # rest)"
proof (cases ent)
  case (namedEntity nop n args)
  show ?thesis
  proof (cases args)
    case Nil
    with namedEntity assms show ?thesis by simp
  next
    case (Cons a rest)
    with namedEntity assms that(2) show ?thesis by (cases a) auto
  qed
qed (use assms that in auto)

text \<open>What the traversal does at an entity that is classified as a buffer.\<close>

lemma scopeVisit_buffer_like:
  assumes "peek ent = bufferEntity op' size' data"
  shows "scopeVisit depth ent EntityTypeAny (checkEntitiesVisitor vmConvert ctx) None =
     (case vmConvert ctx size' valueTypeInteger of
        (sz, Some err) \<Rightarrow> Returns (ent, Some err)
      | (VUint64 sizeAsInt, None) \<Rightarrow>
          (case sizeBuffer sizeAsInt data of
             Panic \<Rightarrow> Panic
           | Returns d \<Rightarrow>
               Returns (case ent of
                          namedEntity nop n args \<Rightarrow>
                            namedEntity nop n (VEnt (bufferEntity op' size' (Some d)) # tl args)
                        | _ \<Rightarrow> bufferEntity op' size' (Some d), None))
      | (_, None) \<Rightarrow> Panic)"
  using assms
  by (elim peek_buffer_cases)
     (auto simp: scopeVisit_Any checkEntitiesVisitor_def
           split: prod.splits option.splits val.splits outcome.splits)

lemma scopeVisit_sizes_buffers:
  "scopeVisit depth root EntityTypeAny (checkEntitiesVisitor vmConvert ctx) None =
     Returns (root', None) \<Longrightarrow>
   visitedAt root p = Some ent \<Longrightarrow> peek ent = bufferEntity op' size' data \<Longrightarrow>
   vmConvert ctx size' valueTypeInteger = (VUint64 s, None) \<Longrightarrow>
   \<exists>ent' d. visitedAt root' p = Some ent' \<and> peek ent' = bufferEntity op' size' (Some d) \<and>
            sizeBuffer s data = Returns d"
proof (induction p arbitrary: root root' depth)
  case Nil
  then have ent: "ent = root" by simp
  from Nil.prems(1,3,4) ent obtain d where
    d: "sizeBuffer s data = Returns d"
    and root': "root' = (case root of
                          namedEntity nop n args \<Rightarrow>
                            namedEntity nop n (VEnt (bufferEntity op' size' (Some d)) # tl args)
                        | _ \<Rightarrow> bufferEntity op' size' (Some d))"
    by (auto simp: scopeVisit_buffer_like split: outcome.splits)
  from Nil.prems(3) ent have "peek root' = bufferEntity op' size' (Some d)"
    unfolding root' by (elim peek_buffer_cases) auto
  with d show ?case by simp
next
  case (Cons i p)
  from Cons.prems(2) obtain sop n cs where root: "root = scopeEntity sop n cs"
    and i: "i < length cs" and sub: "visitedAt (cs ! i) p = Some ent"
    by (cases root) (auto split: if_splits)
  from Cons.prems(1) root obtain cs' where
    cs': "scopeVisitChildren (depth + 1) cs EntityTypeAny
            (checkEntitiesVisitor vmConvert ctx) None = Returns (cs', None)"
    and root': "root' = scopeEntity sop n cs'"
    by (auto simp: scopeVisit_scope split: outcome.splits)
  from scopeVisitChildren_split[OF cs' i] obtain a b where
    len: "length cs' = length cs"
    and before: "scopeVisitChildren (depth + 1) (take i cs) EntityTypeAny
                   (checkEntitiesVisitor vmConvert ctx) None = Returns (take i cs', a)"
    and one: "scopeVisit (depth + 1) (cs ! i) EntityTypeAny
                (checkEntitiesVisitor vmConvert ctx) a = Returns (cs' ! i, b)"
    and after: "scopeVisitChildren (depth + 1) (drop (Suc i) cs) EntityTypeAny
                  (checkEntitiesVisitor vmConvert ctx) b = Returns (drop (Suc i) cs', None)"
    by blast
  from after have b: "b = None" by (cases b) simp_all
  with one have a: "a = None" by (cases a) simp_all
  from Cons.IH[OF one[unfolded a b] sub Cons.prems(3,4)] root' len i show ?case by simp
qed

text \<open>
  C2: take a buffer that the pass classifies, at a position the traversal reaches, itself
  or as the first argument of a named entity, whose size converts to the integer \<open>s\<close>
  and whose payload has \<open>L\<close> bytes (none when it is nil; \<open>L\<close> is a slice length). After
  a successful checkEntities the entity at that position is the same buffer with a
  payload of \<open>max s L\<close> bytes: its first \<open>L\<close> bytes are the old payload, the bytes from
  \<open>L\<close> up to \<open>s\<close> are zero, and when \<open>s \<le> L\<close> the payload is the old one.
\<close>

theorem checkEntities_sizes_buffers:
  assumes "checkEntities vmConvert vm = Returns (None, vm')"
    and "visitedAt (rootNS vm) p = Some ent"
    and "peek ent = bufferEntity op' size' data"
    and "vmConvert (newExecContext vm) size' valueTypeInteger = (VUint64 s, None)"
    and "length (payload data) \<le> maxInt"
  shows "\<exists>ent' d. visitedAt (rootNS vm') p = Some ent' \<and>
           peek ent' = bufferEntity op' size' (Some d) \<and>
           length d = max (unat s) (length (payload data)) \<and>
           take (length (payload data)) d = payload data \<and>
           (\<forall>i. length (payload data) \<le> i \<and> i < unat s \<longrightarrow> d ! i = 0) \<and>
           (unat s \<le> length (payload data) \<longrightarrow> d = payload data)"
proof -
  from checkEntities_Returns[OF assms(1)] obtain root' where
    v: "scopeVisit 0 (rootNS vm) EntityTypeAny
          (checkEntitiesVisitor vmConvert (newExecContext vm)) None = Returns (root', None)"
    and vm': "vm' = vm\<lparr>rootNS := root'\<rparr>" by blast
  from scopeVisit_sizes_buffers[OF v assms(2,3,4)] obtain ent' d where
    at: "visitedAt root' p = Some ent'" and pk: "peek ent' = bufferEntity op' size' (Some d)"
    and sz: "sizeBuffer s data = Returns d" by blast
  from sizeBuffer_Returns[OF sz assms(5)]
  have "d = payload data @ replicate (unat s - length (payload data)) 0" by simp
  from padded_payload[OF this] at pk vm' show ?thesis by auto
qed

theorem checkEntities_sizes_buffers_witness:
  "checkEntities demoConvert (vmWith demoTree) = Returns (None, vmWith demoTreeSized) \<and>
   visitedAt (rootNS (vmWith demoTree)) [0, 0] =
     Some (namedEntity 8 ''BUF0'' [VEnt (bufferEntity 17 (VUint64 4) (Some [1, 2]))]) \<and>
   peek (namedEntity 8 ''BUF0'' [VEnt (bufferEntity 17 (VUint64 4) (Some [1, 2]))]) =
     bufferEntity 17 (VUint64 4) (Some [1, 2]) \<and>
   demoConvert (newExecContext (vmWith demoTree)) (VUint64 4) valueTypeInteger =
     (VUint64 4, None) \<and>
   length (payload (Some [1, 2 :: byte])) \<le> maxInt \<and>
   (\<exists>ent' d. visitedAt (rootNS (vmWith demoTreeSized)) [0, 0] = Some ent' \<and>
      peek ent' = bufferEntity 17 (VUint64 4) (Some d) \<and>
      length d = max (unat (4 :: 64 word)) (length (payload (Some [1, 2 :: byte]))) \<and>
      take (length (payload (Some [1, 2 :: byte]))) d = payload (Some [1, 2]) \<and>
      (\<forall>i. length (payload (Some [1, 2 :: byte])) \<le> i \<and> i < unat (4 :: 64 word) \<longrightarrow> d ! i = 0) \<and>
      (unat (4 :: 64 word) \<le> length (payload (Some [1, 2 :: byte])) \<longrightarrow> d = payload (Some [1, 2])))"
proof -
  have 1: "checkEntities demoConvert (vmWith demoTree) = Returns (None, vmWith demoTreeSized)"
    by (simp add: pass_simps demoTree_def demoTreeSized_def)
  have 2: "visitedAt (rootNS (vmWith demoTree)) [0, 0] =
      Some (namedEntity 8 ''BUF0'' [VEnt (bufferEntity 17 (VUint64 4) (Some [1, 2]))])"
    by (simp add: vmWith_def demoTree_def)
  have 3: "peek (namedEntity 8 ''BUF0'' [VEnt (bufferEntity 17 (VUint64 4) (Some [1, 2]))]) =
      bufferEntity 17 (VUint64 4) (Some [1, 2])" by simp
  have 4: "demoConvert (newExecContext (vmWith demoTree)) (VUint64 4) valueTypeInteger =
      (VUint64 4, None)"
    by (simp add: demoConvert_def newExecContext_def vmWith_def)
  have 5: "length (payload (Some [1, 2 :: byte])) \<le> maxInt" by (simp add: maxInt_def)
  from checkEntities_sizes_buffers[OF 1 2 3 4 5] 1 2 3 4 5 show ?thesis by blast
qed

subsection \<open>Panics\<close>

lemma size_child:
  "c \<in> set cs \<Longrightarrow> size c < size (scopeEntity op' n cs)"
  by (simp add: less_Suc_eq_le size_list_estimation')

lemma scopeVisitChildren_total:
  "(\<And>c st. c \<in> set cs \<Longrightarrow> \<exists>c' st'. scopeVisit depth c entType visitorFn st = Returns (c', st')) \<Longrightarrow>
   \<exists>cs' st'. scopeVisitChildren depth cs entType visitorFn st = Returns (cs', st')"
proof (induction cs arbitrary: st)
  case Nil
  then show ?case by simp
next
  case (Cons c cs)
  from Cons.prems[of c st] obtain c' s1 where
    c: "scopeVisit depth c entType visitorFn st = Returns (c', s1)" by auto
  from Cons.IH[of s1] Cons.prems obtain cs' s2 where
    "scopeVisitChildren depth cs entType visitorFn s1 = Returns (cs', s2)" by auto
  with c show ?case by simp
qed

lemma sizeBuffer_fits:
  assumes "unat s \<le> maxAlloc" and "length (payload data) \<le> maxInt"
  shows "\<exists>d. sizeBuffer s data = Returns d"
proof (cases data)
  case None
  have "unat (of_nat (unat s) :: 64 word) = unat s" by simp
  then have "\<not> (of_nat (unat s) :: 64 word) < s" by (simp add: word_less_nat_alt)
  with None assms show ?thesis by (simp add: sizeBuffer_def makeBytes_def Let_def)
next
  case (Some d0)
  with assms(2) have len: "unat (of_nat (length d0) :: 64 word) = length d0"
    by (simp add: unat_of_nat_len)
  show ?thesis
  proof (cases "(of_nat (length d0) :: 64 word) < s")
    case True
    then have "unat (s - of_nat (length d0)) = unat s - length d0"
      by (simp add: unat_sub len word_le_nat_alt word_less_nat_alt)
    moreover from True have "length d0 < unat s" by (simp add: word_less_nat_alt len)
    ultimately show ?thesis using Some True assms
      by (simp add: sizeBuffer_def makeBytes_def appendBytes_def Let_def)
  next
    case False
    with Some show ?thesis by (simp add: sizeBuffer_def Let_def)
  qed
qed

lemma checkEntity_buffer_fits:
  "sizeFits vmConvert ctx size' data \<Longrightarrow>
   \<exists>r. checkEntity vmConvert ctx (bufferEntity op' size' data) = Returns r"
  using sizeBuffer_fits
  by (fastforce simp: sizeFits_def split: prod.splits option.splits val.splits)

lemma visitor_panicFree:
  assumes "panicFree vmConvert ctx ent"
  shows "\<exists>r. checkEntitiesVisitor vmConvert ctx depth ent st = Returns r"
proof (cases st)
  case (Some e)
  then show ?thesis by auto
next
  case None
  show ?thesis
  proof (cases ent)
    case (namedEntity op' n args)
    with assms obtain a rest where args: "args = a # rest" by (cases args) auto
    show ?thesis
    proof (cases a)
      case (VEnt nested)
      show ?thesis
      proof (cases nested)
        case (bufferEntity bop size' data)
        with assms namedEntity args VEnt have "sizeFits vmConvert ctx size' data" by simp
        from checkEntity_buffer_fits[OF this, of bop] obtain r where
          "checkEntity vmConvert ctx (bufferEntity bop size' data) = Returns r" by blast
        with None namedEntity args VEnt bufferEntity show ?thesis
          by (cases r) (auto simp: checkEntitiesVisitor_def)
      qed (use None namedEntity args VEnt in \<open>auto simp: checkEntitiesVisitor_def\<close>)
    qed (use None namedEntity args in \<open>auto simp: checkEntitiesVisitor_def\<close>)
  next
    case (bufferEntity op' size' data)
    with assms have "sizeFits vmConvert ctx size' data" by simp
    from checkEntity_buffer_fits[OF this, of op'] None bufferEntity show ?thesis
      by (auto simp: checkEntitiesVisitor_def)
  qed (use None in \<open>auto simp: checkEntitiesVisitor_def\<close>)
qed

lemma scopeVisit_panicFree:
  "panicFree vmConvert ctx ent \<Longrightarrow>
   \<exists>ent' st'. scopeVisit depth ent EntityTypeAny (checkEntitiesVisitor vmConvert ctx) st =
     Returns (ent', st')"
proof (induction "size ent" arbitrary: ent depth st rule: less_induct)
  case less
  show ?case
  proof (cases st)
    case (Some e)
    then show ?thesis by simp
  next
    case None
    show ?thesis
    proof (cases ent)
      case (scopeEntity op' n cs)
      have "\<exists>cs' st'. scopeVisitChildren (depth + 1) cs EntityTypeAny
              (checkEntitiesVisitor vmConvert ctx) None = Returns (cs', st')"
      proof (rule scopeVisitChildren_total)
        fix c st
        assume c: "c \<in> set cs"
        with less.prems scopeEntity have "panicFree vmConvert ctx c"
          by (simp add: list_all_iff)
        moreover from size_child[OF c, of op' n] scopeEntity have "size c < size ent" by simp
        ultimately show "\<exists>c' st'. scopeVisit (depth + 1) c EntityTypeAny
            (checkEntitiesVisitor vmConvert ctx) st = Returns (c', st')"
          by (rule less.hyps[rotated])
      qed
      with None scopeEntity show ?thesis by (auto simp: scopeVisit_scope)
    next
      case (Method op' n body)
      then show ?thesis by simp
    next
      case (namedEntity op' n args)
      from visitor_panicFree[OF less.prems, of depth None] obtain b ent' st' where
        "checkEntitiesVisitor vmConvert ctx depth ent None = Returns (b, ent', st')"
        by (metis prod_cases3)
      with None namedEntity show ?thesis by (simp add: scopeVisit_Any)
    next
      case (bufferEntity op' size' data)
      from visitor_panicFree[OF less.prems, of depth None] obtain b ent' st' where
        "checkEntitiesVisitor vmConvert ctx depth ent None = Returns (b, ent', st')"
        by (metis prod_cases3)
      with None bufferEntity show ?thesis by (simp add: scopeVisit_Any)
    next
      case (unnamedEntity op' args)
      with None show ?thesis by (simp add: scopeVisit_Any checkEntitiesVisitor_def)
    qed
  qed
qed


text \<open>
  C3, as the code has it: checkEntities does not panic on a namespace in which, outside
  method bodies, every named entity has a first argument and, for every buffer the
  visitor classifies, the conversion of the size reports an error or returns a
  \<^verbatim>\<open>uint64\<close> within the allocation limit of the runtime (at most \<open>2 ^ 48\<close>).
\<close>

theorem checkEntities_panic_free:
  assumes "panicFree vmConvert (newExecContext vm) (rootNS vm)"
  shows "\<exists>res vm'. checkEntities vmConvert vm = Returns (res, vm')"
  using scopeVisit_panicFree[OF assms, of 0 None]
  by (auto simp: checkEntities_def Visit_def Let_def)


theorem checkEntities_panic_free_witness:
  "panicFree demoConvert (newExecContext (vmWith demoTree)) (rootNS (vmWith demoTree)) \<and>
   checkEntities demoConvert (vmWith demoTree) = Returns (None, vmWith demoTreeSized)"
proof -
  have 1: "panicFree demoConvert (newExecContext (vmWith demoTree)) (rootNS (vmWith demoTree))"
    by (simp add: vmWith_def demoTree_def sizeFits_def demoConvert_def newExecContext_def
        maxInt_def maxAlloc_def)
  from checkEntities_panic_free[OF 1] obtain res vm' where
    "checkEntities demoConvert (vmWith demoTree) = Returns (res, vm')" by blast
  moreover have "checkEntities demoConvert (vmWith demoTree) =
      Returns (None, vmWith demoTreeSized)"
    by (simp add: pass_simps demoTree_def demoTreeSized_def)
  ultimately show ?thesis using 1 by simp
qed

text \<open>
  C3 as stated fails: on a VM with 64-bit integers, a buffer whose size is \<open>2 ^ 63\<close>
  converts to a \<^verbatim>\<open>uint64\<close> beyond the allocation limit, \<^verbatim>\<open>make\<close> panics, and so does
  checkEntities.
\<close>

theorem checkEntities_panics_counterexample:
  "checkEntities demoConvert (vmWith hugeBufferTree) = Panic"
  by (simp add: checkEntities_def Visit_def vmWith_def hugeBufferTree_def scopeVisit.simps
      checkEntitiesVisitor_def demoConvert_def newExecContext_def sizeBuffer_def
      makeBytes_def maxAlloc_def)

subsection \<open>The first error\<close>

lemma checkEntity_error_origin:
  "checkEntity vmConvert ctx x = Returns (b, x', Some e) \<Longrightarrow>
   \<exists>op' size' data v. x = bufferEntity op' size' data \<and>
      vmConvert ctx size' valueTypeInteger = (v, Some e)"
  by (cases x) (auto split: prod.splits option.splits val.splits outcome.splits)

lemma visitor_error_origin:
  assumes "checkEntitiesVisitor vmConvert ctx depth ent None = Returns (b, ent', Some e)"
  shows "\<exists>op' size' data v. peek ent = bufferEntity op' size' data \<and>
      vmConvert ctx size' valueTypeInteger = (v, Some e)"
proof (cases ent)
  case (namedEntity nop n args)
  show ?thesis
  proof (cases args)
    case Nil
    with assms namedEntity show ?thesis by (simp add: checkEntitiesVisitor_def)
  next
    case (Cons a rest)
    show ?thesis
    proof (cases a)
      case (VEnt nested)
      with assms namedEntity Cons obtain b' x' where
        "checkEntity vmConvert ctx nested = Returns (b', x', Some e)"
        by (auto simp: checkEntitiesVisitor_def split: outcome.splits)
      from checkEntity_error_origin[OF this] namedEntity Cons VEnt show ?thesis by simp
    qed (use assms namedEntity Cons in \<open>auto simp: checkEntitiesVisitor_def\<close>)
  qed
qed (use assms checkEntity_error_origin[of vmConvert ctx ent b ent' e]
      in \<open>auto simp: checkEntitiesVisitor_def\<close>)

lemma scopeVisit_leaf_state:
  assumes "\<And>op' n cs. root \<noteq> scopeEntity op' n cs"
    and "scopeVisit depth root EntityTypeAny (checkEntitiesVisitor vmConvert ctx) None =
           Returns (r, st')"
  shows "\<exists>b ent'. checkEntitiesVisitor vmConvert ctx depth root None = Returns (b, ent', st')"
  using assms
  by (cases root) (auto simp: scopeVisit_Any split: outcome.splits if_splits)

text \<open>An error the traversal ends with comes from a buffer it has visited.\<close>

lemma scopeVisitChildren_error_origin:
  assumes members: "\<And>c r'. c \<in> set cs \<Longrightarrow> scopeVisit depth c EntityTypeAny
        (checkEntitiesVisitor vmConvert ctx) None = Returns (r', Some e) \<Longrightarrow> P c"
    and run: "scopeVisitChildren depth cs EntityTypeAny (checkEntitiesVisitor vmConvert ctx) None =
        Returns (cs', Some e)"
  shows "\<exists>j < length cs. P (cs ! j)"
  using assms
proof (induction cs arbitrary: cs')
  case Nil
  then show ?case by simp
next
  case (Cons c cs)
  from Cons.prems(2) obtain c' s1 rest' where
    c: "scopeVisit depth c EntityTypeAny (checkEntitiesVisitor vmConvert ctx) None = Returns (c', s1)"
    and r: "scopeVisitChildren depth cs EntityTypeAny (checkEntitiesVisitor vmConvert ctx) s1 =
        Returns (rest', Some e)"
    by (auto split: outcome.splits prod.splits)
  show ?case
  proof (cases s1)
    case None
    from Cons.IH[OF _ r[unfolded None]] Cons.prems(1)
    obtain j where "j < length cs" "P (cs ! j)" by auto
    then have "Suc j < length (c # cs)" "P ((c # cs) ! Suc j)" by simp_all
    then show ?thesis by blast
  next
    case (Some e1)
    with r have "e1 = e" by simp
    with c Some Cons.prems(1)[of c c'] have "P c" by simp
    then have "0 < length (c # cs) \<and> P ((c # cs) ! 0)" by simp
    then show ?thesis by blast
  qed
qed

lemma scopeVisit_error_origin:
  "scopeVisit depth root EntityTypeAny (checkEntitiesVisitor vmConvert ctx) None =
     Returns (root', Some e) \<Longrightarrow>
   \<exists>p ent op' size' data v. visitedAt root p = Some ent \<and>
      peek ent = bufferEntity op' size' data \<and>
      vmConvert ctx size' valueTypeInteger = (v, Some e)"
proof (induction "size root" arbitrary: root root' depth rule: less_induct)
  case less
  show ?case
  proof (cases "\<exists>sop n cs. root = scopeEntity sop n cs")
    case False
    with scopeVisit_leaf_state[OF _ less.prems] obtain b ent' where
      "checkEntitiesVisitor vmConvert ctx depth root None = Returns (b, ent', Some e)" by blast
    from visitor_error_origin[OF this] obtain op' size' data v where
      "peek root = bufferEntity op' size' data"
      "vmConvert ctx size' valueTypeInteger = (v, Some e)" by blast
    then have "visitedAt root [] = Some root \<and> peek root = bufferEntity op' size' data \<and>
      vmConvert ctx size' valueTypeInteger = (v, Some e)" by simp
    then show ?thesis by blast
  next
    case True
    then obtain sop n cs where root: "root = scopeEntity sop n cs" by blast
    with less.prems obtain cs' where
      cs': "scopeVisitChildren (depth + 1) cs EntityTypeAny
              (checkEntitiesVisitor vmConvert ctx) None = Returns (cs', Some e)"
      by (auto simp: scopeVisit_scope split: outcome.splits)
    let ?P = "\<lambda>c. \<exists>p ent op' size' data v. visitedAt c p = Some ent \<and>
        peek ent = bufferEntity op' size' data \<and>
        vmConvert ctx size' valueTypeInteger = (v, Some e)"
    have "\<exists>j < length cs. ?P (cs ! j)"
    proof (rule scopeVisitChildren_error_origin[OF _ cs'])
      fix c r'
      assume c: "c \<in> set cs"
        and v: "scopeVisit (depth + 1) c EntityTypeAny (checkEntitiesVisitor vmConvert ctx) None =
                  Returns (r', Some e)"
      from size_child[OF c, of sop n] root have "size c < size root" by simp
      from less.hyps[OF this v] show "?P c" .
    qed
    then obtain j p ent op' size' data v where j: "j < length cs"
      and "visitedAt (cs ! j) p = Some ent" "peek ent = bufferEntity op' size' data"
      "vmConvert ctx size' valueTypeInteger = (v, Some e)" by blast
    with root have "visitedAt root (j # p) = Some ent \<and> peek ent = bufferEntity op' size' data \<and>
      vmConvert ctx size' valueTypeInteger = (v, Some e)" by simp
    then show ?thesis by blast
  qed
qed

lemma visitedAfter_Nil [simp]: "\<not> visitedAfter q []"
  by (cases q) simp_all

lemma same_after:
  assumes "drop (Suc i) xs' = drop (Suc i) xs" and "length xs' = length xs"
    and "i < j" and "j < length xs"
  shows "xs' ! j = xs ! j"
proof -
  from assms(3) obtain k where k: "j = Suc i + k" by (metis less_iff_Suc_add add_Suc)
  with assms(2,4) have "drop (Suc i) xs' ! k = xs' ! j" "drop (Suc i) xs ! k = xs ! j"
    by simp_all
  with assms(1) show ?thesis by simp
qed

lemma scopeVisit_buffer_fails:
  "peek ent = bufferEntity op' size' data \<Longrightarrow>
   vmConvert ctx size' valueTypeInteger = (v, Some e) \<Longrightarrow>
   scopeVisit depth ent EntityTypeAny (checkEntitiesVisitor vmConvert ctx) None =
     Returns (ent, Some e)"
  by (cases v) (simp_all add: scopeVisit_buffer_like)

lemma scopeVisit_first_error:
  "scopeVisit depth root EntityTypeAny (checkEntitiesVisitor vmConvert ctx) None =
     Returns (root', st') \<Longrightarrow>
   visitedAt root p = Some ent \<Longrightarrow> peek ent = bufferEntity op' size' data \<Longrightarrow>
   vmConvert ctx size' valueTypeInteger = (v, Some e) \<Longrightarrow>
   (\<forall>q ent2 op2 size2 data2.
       visitedAfter q p \<and> visitedAt root q = Some ent2 \<and>
       peek ent2 = bufferEntity op2 size2 data2 \<longrightarrow>
       snd (vmConvert ctx size2 valueTypeInteger) = None) \<Longrightarrow>
   st' = Some e \<and>
   (\<forall>r. r = p \<or> visitedAfter p r \<longrightarrow> entityAt root' r = entityAt root r)"
proof (induction p arbitrary: root root' depth st')
  case Nil
  then have "ent = root" by simp
  with Nil.prems(1)
    scopeVisit_buffer_fails[of ent op' size' data vmConvert ctx v e depth, OF Nil.prems(3,4)]
  show ?case by simp
next
  case (Cons i p)
  from Cons.prems(2) obtain sop n cs where root: "root = scopeEntity sop n cs"
    and i: "i < length cs" and sub: "visitedAt (cs ! i) p = Some ent"
    by (cases root) (auto split: if_splits)
  from Cons.prems(1) root obtain cs' where
    cs': "scopeVisitChildren (depth + 1) cs EntityTypeAny
            (checkEntitiesVisitor vmConvert ctx) None = Returns (cs', st')"
    and root': "root' = scopeEntity sop n cs'"
    by (auto simp: scopeVisit_scope split: outcome.splits)
  from scopeVisitChildren_split[OF cs' i] obtain a b where
    len: "length cs' = length cs"
    and before: "scopeVisitChildren (depth + 1) (take i cs) EntityTypeAny
                   (checkEntitiesVisitor vmConvert ctx) None = Returns (take i cs', a)"
    and one: "scopeVisit (depth + 1) (cs ! i) EntityTypeAny
                (checkEntitiesVisitor vmConvert ctx) a = Returns (cs' ! i, b)"
    and after: "scopeVisitChildren (depth + 1) (drop (Suc i) cs) EntityTypeAny
                  (checkEntitiesVisitor vmConvert ctx) b = Returns (drop (Suc i) cs', st')"
    by blast
  have a: "a = None"
  proof (cases a)
    case (Some e1)
    let ?P = "\<lambda>c. \<exists>q ent2 op2 size2 data2 v2. visitedAt c q = Some ent2 \<and>
        peek ent2 = bufferEntity op2 size2 data2 \<and>
        vmConvert ctx size2 valueTypeInteger = (v2, Some e1)"
    have "\<exists>j < length (take i cs). ?P (take i cs ! j)"
      by (rule scopeVisitChildren_error_origin[OF _ before[unfolded Some]])
         (rule scopeVisit_error_origin)
    then obtain j q ent2 op2 size2 data2 v2 where j: "j < i"
      and q: "visitedAt (cs ! j) q = Some ent2" "peek ent2 = bufferEntity op2 size2 data2"
      and f: "vmConvert ctx size2 valueTypeInteger = (v2, Some e1)"
      by auto
    from j i q root have "visitedAfter (j # q) (i # p) \<and> visitedAt root (j # q) = Some ent2 \<and>
      peek ent2 = bufferEntity op2 size2 data2" by simp
    with Cons.prems(5) have "snd (vmConvert ctx size2 valueTypeInteger) = None" by blast
    with f show ?thesis by simp
  qed simp
  have first: "\<forall>q ent2 op2 size2 data2.
       visitedAfter q p \<and> visitedAt (cs ! i) q = Some ent2 \<and>
       peek ent2 = bufferEntity op2 size2 data2 \<longrightarrow>
       snd (vmConvert ctx size2 valueTypeInteger) = None"
  proof (intro allI impI)
    fix q ent2 op2 size2 data2
    assume "visitedAfter q p \<and> visitedAt (cs ! i) q = Some ent2 \<and>
       peek ent2 = bufferEntity op2 size2 data2"
    with i root have "visitedAfter (i # q) (i # p) \<and> visitedAt root (i # q) = Some ent2 \<and>
       peek ent2 = bufferEntity op2 size2 data2" by simp
    with Cons.prems(5) show "snd (vmConvert ctx size2 valueTypeInteger) = None" by blast
  qed
  from Cons.IH[OF one[unfolded a] sub Cons.prems(3,4) first]
  have b: "b = Some e"
    and kept: "\<And>r. r = p \<or> visitedAfter p r \<Longrightarrow> entityAt (cs' ! i) r = entityAt (cs ! i) r"
    by blast+
  from after b have st': "st' = Some e" and rest: "drop (Suc i) cs' = drop (Suc i) cs"
    by simp_all
  have "entityAt root' r = entityAt root r" if r: "r = i # p \<or> visitedAfter (i # p) r" for r
  proof (cases r)
    case Nil
    with r show ?thesis by simp
  next
    case (Cons j r')
    show ?thesis
    proof (cases "j < length cs")
      case False
      with Cons root root' len show ?thesis by simp
    next
      case True
      show ?thesis
      proof (cases "j = i")
        case same: True
        with r Cons have "r' = p \<or> visitedAfter p r'" by auto
        from kept[OF this] same Cons root root' len i show ?thesis by simp
      next
        case False
        with r Cons have "i < j" by (auto split: if_splits)
        from same_after[OF rest len this True] Cons root root' len True show ?thesis by simp
      qed
    qed
  qed
  with st' show ?case by blast
qed

text \<open>
  C7: let the pass return, and let the conversion of the size fail with the error \<open>e\<close>
  on a buffer the visitor classifies at a position \<open>p\<close> the traversal reaches, no buffer
  classified at a position visited before \<open>p\<close> failing. Then checkEntities returns \<open>e\<close>,
  and so does Init, which returns what checkEntities returns. The failing buffer and
  every entity at a position visited after \<open>p\<close> are as they were before the pass. Once
  \<open>e\<close> is recorded the visitor returns false on every entity without classifying it,
  evaluating a size or touching a payload.
\<close>

theorem checkEntities_first_error:
  assumes "checkEntities vmConvert vm = Returns (res, vm')"
    and "visitedAt (rootNS vm) p = Some ent"
    and "peek ent = bufferEntity op' size' data"
    and "vmConvert (newExecContext vm) size' valueTypeInteger = (v, Some e)"
    and "\<forall>q ent2 op2 size2 data2.
           visitedAfter q p \<and> visitedAt (rootNS vm) q = Some ent2 \<and>
           peek ent2 = bufferEntity op2 size2 data2 \<longrightarrow>
           snd (vmConvert (newExecContext vm) size2 valueTypeInteger) = None"
  shows "res = Some e \<and>
         (\<forall>r. r = p \<or> visitedAfter p r \<longrightarrow> entityAt (rootNS vm') r = entityAt (rootNS vm) r) \<and>
         (\<forall>depth x. checkEntitiesVisitor vmConvert (newExecContext vm) depth x (Some e) =
                      Returns (False, x, Some e)) \<and>
         (\<forall>ParseAML populateJumpTable vm0 vm1.
            initTables ParseAML (enumerate 0 [''DSDT'', ''SSDT'']) vm0 = (None, vm1) \<and>
            vm = vm1\<lparr>jumpTable := populateJumpTable (jumpTable vm1)\<rparr> \<longrightarrow>
            Init ParseAML populateJumpTable vmConvert vm0 = Returns (Some e, vm'))"
proof -
  from checkEntities_Returns[OF assms(1)] obtain root' where
    v: "scopeVisit 0 (rootNS vm) EntityTypeAny
          (checkEntitiesVisitor vmConvert (newExecContext vm)) None = Returns (root', res)"
    and vm': "vm' = vm\<lparr>rootNS := root'\<rparr>" by blast
  from scopeVisit_first_error[OF v assms(2,3,4,5)]
  have res: "res = Some e"
    and kept: "\<forall>r. r = p \<or> visitedAfter p r \<longrightarrow> entityAt root' r = entityAt (rootNS vm) r"
    by blast+
  have "Init ParseAML populateJumpTable vmConvert vm0 = Returns (Some e, vm')"
    if "initTables ParseAML (enumerate 0 [''DSDT'', ''SSDT'']) vm0 = (None, vm1) \<and>
        vm = vm1\<lparr>jumpTable := populateJumpTable (jumpTable vm1)\<rparr>"
    for ParseAML populateJumpTable and vm0 vm1 :: "('a, 'b) VM"
  proof -
    from that have t: "initTables ParseAML (enumerate 0 [''DSDT'', ''SSDT'']) vm0 = (None, vm1)"
      and eq: "vm = vm1\<lparr>jumpTable := populateJumpTable (jumpTable vm1)\<rparr>" by blast+
    show ?thesis unfolding Init_def t using assms(1) res eq by simp
  qed
  with res kept vm' show ?thesis by simp
qed

theorem checkEntities_first_error_witness:
  "checkEntities demoConvert (vmWith failingTree) =
     Returns (Some errConversionFromEmptyString, vmWith failingTreeAfter) \<and>
   visitedAt (rootNS (vmWith failingTree)) [1] =
     Some (namedEntity 8 ''BUF1'' [VEnt (bufferEntity 17 (VString []) None)]) \<and>
   demoConvert (newExecContext (vmWith failingTree)) (VString []) valueTypeInteger =
     (VNil, Some errConversionFromEmptyString) \<and>
   entityAt (rootNS (vmWith failingTreeAfter)) [2] = Some (bufferEntity 17 (VUint64 3) None) \<and>
   entityAt (rootNS (vmWith failingTreeAfter)) [1] = entityAt (rootNS (vmWith failingTree)) [1]"
proof -
  let ?vm = "vmWith failingTree"
  have 1: "checkEntities demoConvert ?vm =
      Returns (Some errConversionFromEmptyString, vmWith failingTreeAfter)"
    by (simp add: pass_simps failingTree_def failingTreeAfter_def)
  have 2: "visitedAt (rootNS ?vm) [1] =
      Some (namedEntity 8 ''BUF1'' [VEnt (bufferEntity 17 (VString []) None)])"
    by (simp add: vmWith_def failingTree_def)
  have 3: "peek (namedEntity 8 ''BUF1'' [VEnt (bufferEntity 17 (VString []) None)]) =
      bufferEntity 17 (VString []) None" by simp
  have 4: "demoConvert (newExecContext ?vm) (VString []) valueTypeInteger =
      (VNil, Some errConversionFromEmptyString)"
    by (simp add: demoConvert_def)
  have 5: "\<forall>q ent2 op2 size2 data2.
      visitedAfter q [1] \<and> visitedAt (rootNS ?vm) q = Some ent2 \<and>
      peek ent2 = bufferEntity op2 size2 data2 \<longrightarrow>
      snd (demoConvert (newExecContext ?vm) size2 valueTypeInteger) = None"
  proof (intro allI impI, elim conjE)
    fix q ent2 op2 size2 data2
    assume before: "visitedAfter q [1]"
      and at: "visitedAt (rootNS ?vm) q = Some ent2"
      and pk: "peek ent2 = bufferEntity op2 size2 data2"
    show "snd (demoConvert (newExecContext ?vm) size2 valueTypeInteger) = None"
    proof (cases q)
      case Nil
      with at have "ent2 = failingTree" by (simp add: vmWith_def)
      with pk show ?thesis by (simp add: failingTree_def)
    next
      case (Cons j q')
      with before have j: "j = 0" by (auto split: if_splits)
      with Cons at have "q' = [] \<and> ent2 = bufferEntity 17 (VUint64 2) None"
        by (cases q') (simp_all add: vmWith_def failingTree_def)
      with pk show ?thesis by (auto simp: demoConvert_def)
    qed
  qed
  from checkEntities_first_error[OF 1 2 3 4 5]
  have kept: "\<And>r. r = [1] \<or> visitedAfter [1] r \<Longrightarrow>
      entityAt (rootNS (vmWith failingTreeAfter)) r = entityAt (rootNS ?vm) r" by blast
  have "visitedAfter [1] [2]" by simp
  then have "entityAt (rootNS (vmWith failingTreeAfter)) [2] = entityAt (rootNS ?vm) [2]"
    by (intro kept) (rule disjI2)
  moreover have "entityAt (rootNS (vmWith failingTreeAfter)) [1] = entityAt (rootNS ?vm) [1]"
    by (intro kept) simp
  moreover have "entityAt (rootNS ?vm) [2] = Some (bufferEntity 17 (VUint64 3) None)"
    by (simp add: vmWith_def failingTree_def)
  ultimately show ?thesis using 1 2 4 by simp
qed

end
